theory Spec2Isabelle
  imports Complex_Main "HOL-Library.Word"
begin

section \<open>Failures of the model\<close>

text \<open>
  \<open>AssertionFailed\<close> is a violated \<open>SG_ASSERT\<close>.  \<open>BadDereference\<close> is a read or write
  through a pointer that does not address a live node or allocator (undefined behaviour in
  the C++).  \<open>OutOfFuel\<close> belongs to the model only: the recursion of
  \<open>SgUctTree::CopySubtree\<close> follows the pointers of the source tree and is bounded here by a
  depth budget.
\<close>

datatype error = AssertionFailed | BadDereference | OutOfFuel

section \<open>SgStatistics.h: the running mean\<close>

text \<open>
  \<open>SgStatisticsBase<VALUE,COUNT>\<close>.  \<open>COUNT\<close> is an unsigned counter of some width \<open>'c\<close>
  (\<open>++count\<close> wraps); \<open>VALUE\<close> is taken as an exact real number.
\<close>

record (overloaded) ('c::len) SgStatisticsBase =
  m_count :: "'c word"
  m_mean :: real

definition Clear_stat :: "'c::len SgStatisticsBase" where
  "Clear_stat = \<lparr>m_count = 0, m_mean = 0\<rparr>"

definition Initialize :: "real \<Rightarrow> 'c::len word \<Rightarrow> 'c SgStatisticsBase" where
  "Initialize val count = \<lparr>m_count = count, m_mean = val\<rparr>"

text \<open>
  \<open>Add\<close>: \<open>count = m_count; ++count; SG_ASSERT(count > 0); val -= m_mean;
  m_mean += val / count; m_count = count\<close>.  The assertion guards the division: when the
  counter wraps to zero the call fails.
\<close>

definition Add :: "real \<Rightarrow> 'c::len SgStatisticsBase \<Rightarrow> error + 'c SgStatisticsBase" where
  "Add val s =
     (let count = m_count s + 1 in
      if \<not> 0 < count then Inl AssertionFailed
      else
        let val' = val - m_mean s in
        Inr \<lparr>m_count = count, m_mean = m_mean s + val' / real (unat count)\<rparr>)"

text \<open>
  A history of calls on one statistics object.  The count handed to \<open>Initialize\<close> is
  given as a natural number and converted to the counter type.
\<close>

datatype stat_call = CallAdd real | CallInitialize real nat | CallClear

fun stat_call_value_ok :: "stat_call \<Rightarrow> bool" where
  "stat_call_value_ok (CallAdd v) = (0 \<le> v \<and> v \<le> 1)"
| "stat_call_value_ok (CallInitialize v c) = (0 \<le> v \<and> v \<le> 1)"
| "stat_call_value_ok CallClear = True"

fun do_stat_call :: "stat_call \<Rightarrow> 'c::len SgStatisticsBase \<Rightarrow> error + 'c SgStatisticsBase" where
  "do_stat_call (CallAdd v) s = Add v s"
| "do_stat_call (CallInitialize v c) s = Inr (Initialize v (of_nat c))"
| "do_stat_call CallClear s = Inr Clear_stat"

fun do_stat_calls :: "stat_call list \<Rightarrow> 'c::len SgStatisticsBase \<Rightarrow> error + 'c SgStatisticsBase" where
  "do_stat_calls [] s = Inr s"
| "do_stat_calls (c # cs) s =
     (case do_stat_call c s of Inl e \<Rightarrow> Inl e | Inr s' \<Rightarrow> do_stat_calls cs s')"

definition mean_in_unit :: "'c::len SgStatisticsBase \<Rightarrow> bool" where
  "mean_in_unit s = (0 \<le> m_mean s \<and> m_mean s \<le> 1)"

section \<open>SgUctTree: nodes, allocators and the tree\<close>

type_synonym SgMove = int

text \<open>
  Modelled from the spec: \<open>SgMove.h\<close> is not among the sources.  A move is an
  opaque integer with a reserved null value.
\<close>

definition SG_NULLMOVE :: SgMove where
  "SG_NULLMOVE = - 1"

text \<open>
  A node pointer.  The C++ keeps raw addresses into the allocators' vectors, which never
  reallocate; here an address is the root, or an allocator and an index into its vector
  (the index may be one past the end, as \<open>&nodes[nodes.size()]\<close> is).  \<open>NullRef\<close> stands
  for a pointer that was never set.
\<close>

datatype node_ref = NullRef | RootRef | Slot nat nat

fun ref_plus :: "node_ref \<Rightarrow> nat \<Rightarrow> node_ref" where
  "ref_plus (Slot a i) j = Slot a (i + j)"
| "ref_plus RootRef j = (if j = 0 then RootRef else NullRef)"
| "ref_plus NullRef j = NullRef"

text \<open>
  Modelled from the spec: \<open>SgUctTree.h\<close> (classes \<open>SgUctNode\<close>, \<open>SgUctAllocator\<close>,
  \<open>SgUctChildIterator\<close> and the inline members of \<open>SgUctTree\<close>) is not among the sources.
  A node is the statistical record of the data model: move, visit count, move count, value
  mean, RAVE count and mean, and the pair (first child, number of children) that names a
  contiguous block of children in some allocator.  A new node has zeroed statistics and no
  children.
\<close>

record SgUctNode =
  move :: SgMove
  pos_count :: nat
  move_count :: nat
  mean_value :: real
  rave_count :: nat
  rave_mean :: real
  first_child :: node_ref
  num_children :: nat

definition new_SgUctNode :: "SgMove \<Rightarrow> SgUctNode" where
  "new_SgUctNode mv =
     \<lparr>move = mv, pos_count = 0, move_count = 0, mean_value = 0, rave_count = 0, rave_mean = 0,
      first_child = NullRef, num_children = 0\<rparr>"

text \<open>
  Modelled from the spec: \<open>CopyDataFrom\<close> copies the move and the statistics of another
  node, not its child links (\<open>ApplyFilter\<close> and \<open>CopySubtree\<close> set those themselves, and
  \<open>CopySubtree\<close> relies on it for the move).
\<close>

definition CopyDataFrom :: "SgUctNode \<Rightarrow> SgUctNode \<Rightarrow> SgUctNode" where
  "CopyDataFrom src n =
     n\<lparr>move := move src, pos_count := pos_count src, move_count := move_count src,
       mean_value := mean_value src, rave_count := rave_count src, rave_mean := rave_mean src\<rparr>"

definition HasChildren :: "SgUctNode \<Rightarrow> bool" where
  "HasChildren n = (num_children n > 0)"

definition SetFirstChild :: "node_ref \<Rightarrow> SgUctNode \<Rightarrow> SgUctNode" where
  "SetFirstChild r n = n\<lparr>first_child := r\<rparr>"

definition SetNuChildren :: "nat \<Rightarrow> SgUctNode \<Rightarrow> SgUctNode" where
  "SetNuChildren k n = n\<lparr>num_children := k\<rparr>"

definition SetPosCount :: "nat \<Rightarrow> SgUctNode \<Rightarrow> SgUctNode" where
  "SetPosCount k n = n\<lparr>pos_count := k\<rparr>"

text \<open>
  Modelled from the spec: an allocator is a sequence of nodes with a fixed capacity;
  appending requires capacity; clearing empties it and keeps the capacity.
\<close>

record SgUctAllocator =
  m_nodes :: "SgUctNode list"
  capacity :: nat

definition HasCapacity :: "SgUctAllocator \<Rightarrow> nat \<Rightarrow> bool" where
  "HasCapacity al n = (length (m_nodes al) + n \<le> capacity al)"

definition Clear_alloc :: "SgUctAllocator \<Rightarrow> SgUctAllocator" where
  "Clear_alloc al = al\<lparr>m_nodes := []\<rparr>"

definition SetMaxNodes_alloc :: "nat \<Rightarrow> SgUctAllocator \<Rightarrow> SgUctAllocator" where
  "SetMaxNodes_alloc n al = al\<lparr>capacity := n\<rparr>"

definition NuNodes_alloc :: "SgUctAllocator \<Rightarrow> nat" where
  "NuNodes_alloc al = length (m_nodes al)"

record SgUctTree =
  m_maxNodes :: nat
  m_root :: SgUctNode
  m_allocators :: "SgUctAllocator list"

definition NuAllocators :: "SgUctTree \<Rightarrow> nat" where
  "NuAllocators t = length (m_allocators t)"

definition alloc_nodes :: "SgUctTree \<Rightarrow> nat \<Rightarrow> SgUctNode list" where
  "alloc_nodes t a = m_nodes (m_allocators t ! a)"

text \<open>
  \<open>SgUctTree::Contains\<close>: the node is the root, or its address lies between the first and
  the last node of some allocator.
\<close>

fun Contains :: "SgUctTree \<Rightarrow> node_ref \<Rightarrow> bool" where
  "Contains t RootRef = True"
| "Contains t (Slot a i) = (a < NuAllocators t \<and> i < length (alloc_nodes t a))"
| "Contains t NullRef = False"

text \<open>Reading and writing through a node pointer.\<close>

fun deref :: "SgUctTree \<Rightarrow> node_ref \<Rightarrow> SgUctNode option" where
  "deref t RootRef = Some (m_root t)"
| "deref t (Slot a i) =
     (if a < NuAllocators t \<and> i < length (alloc_nodes t a) then Some (alloc_nodes t a ! i)
      else None)"
| "deref t NullRef = None"

fun modify :: "node_ref \<Rightarrow> (SgUctNode \<Rightarrow> SgUctNode) \<Rightarrow> SgUctTree \<Rightarrow> SgUctTree" where
  "modify RootRef f t = t\<lparr>m_root := f (m_root t)\<rparr>"
| "modify (Slot a i) f t =
     t\<lparr>m_allocators := (m_allocators t)
          [a := (m_allocators t ! a)\<lparr>m_nodes := (alloc_nodes t a)[i := f (alloc_nodes t a ! i)]\<rparr>]\<rparr>"
| "modify NullRef f t = t"

text \<open>\<open>nodes.push_back(child)\<close> on the vector of allocator \<open>a\<close>.\<close>

definition push_back :: "nat \<Rightarrow> SgUctNode \<Rightarrow> SgUctTree \<Rightarrow> SgUctTree" where
  "push_back a n t =
     t\<lparr>m_allocators := (m_allocators t)
          [a := (m_allocators t ! a)\<lparr>m_nodes := alloc_nodes t a @ [n]\<rparr>]\<rparr>"

text \<open>
  \<open>SgUctChildIterator\<close>: the addresses \<open>FirstChild()\<close>, \<open>FirstChild() + 1\<close>, \<dots> of the
  \<open>NuChildren()\<close> children of a node.
\<close>

definition child_refs :: "SgUctNode \<Rightarrow> node_ref list" where
  "child_refs n = map (ref_plus (first_child n)) [0..<num_children n]"

subsection \<open>Clear, NuNodes, SetMaxNodes\<close>

definition Clear :: "SgUctTree \<Rightarrow> SgUctTree" where
  "Clear t = t\<lparr>m_allocators := map Clear_alloc (m_allocators t),
               m_root := new_SgUctNode SG_NULLMOVE\<rparr>"

fun NuNodes_loop :: "SgUctAllocator list \<Rightarrow> nat \<Rightarrow> nat" where
  "NuNodes_loop [] nuNodes = nuNodes"
| "NuNodes_loop (al # als) nuNodes = NuNodes_loop als (nuNodes + NuNodes_alloc al)"

definition NuNodes :: "SgUctTree \<Rightarrow> nat" where
  "NuNodes t = NuNodes_loop (m_allocators t) 1"

text \<open>
  \<open>SetMaxNodes\<close>: with no allocator registered the C++ prints a message and runs into
  \<open>SG_ASSERT(false)\<close>.
\<close>

definition SetMaxNodes :: "nat \<Rightarrow> SgUctTree \<Rightarrow> error + SgUctTree" where
  "SetMaxNodes maxNodes t0 =
     (let t = Clear t0;
          nuAllocators = NuAllocators t
      in if nuAllocators = 0 then Inl AssertionFailed
         else
           let t = t\<lparr>m_maxNodes := maxNodes\<rparr>;
               maxNodesPerAlloc = maxNodes div nuAllocators
           in Inr (t\<lparr>m_allocators := map (SetMaxNodes_alloc maxNodesPerAlloc) (m_allocators t)\<rparr>))"

subsection \<open>CreateChildren\<close>

fun CreateChildren_loop :: "nat \<Rightarrow> SgMove list \<Rightarrow> SgUctTree \<Rightarrow> SgUctTree" where
  "CreateChildren_loop a [] t = t"
| "CreateChildren_loop a (mv # moves) t =
     (let child = new_SgUctNode mv in CreateChildren_loop a moves (push_back a child t))"

definition CreateChildren :: "nat \<Rightarrow> node_ref \<Rightarrow> SgMove list \<Rightarrow> SgUctTree \<Rightarrow> error + SgUctTree" where
  "CreateChildren allocatorId node moves t =
     (case deref t node of
        None \<Rightarrow> Inl AssertionFailed
      | Some nd \<Rightarrow>
          let nuChildren = length moves in
          if \<not> nuChildren > 0 then Inl AssertionFailed
          else if \<not> allocatorId < NuAllocators t then Inl BadDereference
          else if \<not> HasCapacity (m_allocators t ! allocatorId) nuChildren then Inl AssertionFailed
          else if \<not> (NuAllocators t > 1 \<or> \<not> HasChildren nd) then Inl AssertionFailed
          else
            let firstChild = Slot allocatorId (length (alloc_nodes t allocatorId));
                t = CreateChildren_loop allocatorId moves t;
                t = modify node (SetFirstChild firstChild) t;
                t = modify node (SetNuChildren nuChildren) t
            in Inr t)"

subsection \<open>ApplyFilter\<close>

text \<open>
  The loop over the children of the node.  For a child whose move is not in the filter the
  C++ builds a local \<open>SgUctNode child(move)\<close>, appends it with \<open>nodes.push_back(child)\<close>,
  which stores a copy, and only then calls \<open>child.CopyDataFrom(*it)\<close>, \<open>SetNuChildren\<close> and
  \<open>SetFirstChild\<close> on the local object, which goes out of scope at the end of the
  iteration.  The bindings below follow these statements in their order.
\<close>

fun ApplyFilter_loop ::
  "nat \<Rightarrow> SgMove list \<Rightarrow> node_ref list \<Rightarrow> SgUctTree \<Rightarrow> nat \<Rightarrow> error + (SgUctTree \<times> nat)" where
  "ApplyFilter_loop a rootFilter [] t nuChildren = Inr (t, nuChildren)"
| "ApplyFilter_loop a rootFilter (it # its) t nuChildren =
     (case deref t it of
        None \<Rightarrow> Inl BadDereference
      | Some cur \<Rightarrow>
          let mv = move cur in
          if mv \<notin> set rootFilter then
            let child = new_SgUctNode mv;
                t = push_back a child t;
                child = CopyDataFrom cur child;
                childNuChildren = num_children cur;
                child = SetNuChildren childNuChildren child;
                child = (if childNuChildren > 0 then SetFirstChild (first_child cur) child
                         else child)
            in ApplyFilter_loop a rootFilter its t (nuChildren + 1)
          else ApplyFilter_loop a rootFilter its t nuChildren)"

definition ApplyFilter :: "nat \<Rightarrow> node_ref \<Rightarrow> SgMove list \<Rightarrow> SgUctTree \<Rightarrow> error + SgUctTree" where
  "ApplyFilter allocatorId node rootFilter t =
     (case deref t node of
        None \<Rightarrow> Inl AssertionFailed
      | Some nd \<Rightarrow>
          if \<not> allocatorId < NuAllocators t then Inl BadDereference
          else if \<not> HasCapacity (m_allocators t ! allocatorId) (num_children nd)
            then Inl AssertionFailed
          else if \<not> HasChildren nd then Inr t
          else
            let firstChild = Slot allocatorId (length (alloc_nodes t allocatorId)) in
            (case ApplyFilter_loop allocatorId rootFilter (child_refs nd) t 0 of
               Inl e \<Rightarrow> Inl e
             | Inr (t, nuChildren) \<Rightarrow>
                 let t = modify node (SetFirstChild firstChild) t;
                     t = modify node (SetNuChildren nuChildren) t
                 in Inr t))"

text \<open>The effect of several \<open>push_back\<close>s on the vector of allocator \<open>a\<close>, used to state results.\<close>

definition append_nodes :: "nat \<Rightarrow> SgUctNode list \<Rightarrow> SgUctTree \<Rightarrow> SgUctTree" where
  "append_nodes a ns t =
     t\<lparr>m_allocators := (m_allocators t)
          [a := (m_allocators t ! a)\<lparr>m_nodes := alloc_nodes t a @ ns\<rparr>]\<rparr>"

subsection \<open>ExtractSubtree and CopySubtree\<close>

text \<open>
  Modelled from the spec: \<open>SgTimer\<close> and \<open>SgUserAbort\<close> are not among the sources; the
  deadline and the abort flag are given from outside.  Every call of \<open>CopySubtree\<close> on a
  node with children asks \<open>timer.IsTimeOut(maxTime, 10000)\<close> once and \<open>SgUserAbort()\<close>
  once; the environment holds the answers to the \<open>k\<close>-th such poll of an extraction.
\<close>

record copy_env =
  IsTimeOut :: "real \<Rightarrow> nat \<Rightarrow> bool"
  SgUserAbort :: "nat \<Rightarrow> bool"

text \<open>
  What the recursion threads through its calls: the target tree, the reference parameters
  \<open>currentAllocatorId\<close> and \<open>warnTruncate\<close>, the number of polls made so far, and the lines
  written to \<open>SgDebug()\<close>.
\<close>

record copy_state =
  target :: SgUctTree
  currentAllocatorId :: nat
  warnTruncate :: bool
  polls :: nat
  SgDebug :: "string list"

definition msg_capacity :: string where
  "msg_capacity = ''SgUctTree::CopySubtree: Truncated (allocator capacity)'' @ [CHR 0x0A]"

definition msg_max_time :: string where
  "msg_max_time = ''SgUctTree::CopySubtree: Truncated (max time)'' @ [CHR 0x0A]"

definition msg_aborted :: string where
  "msg_aborted = ''SgUctTree::CopySubtree: Truncated (aborted)'' @ [CHR 0x0A]"

definition debug_if_warn :: "string \<Rightarrow> copy_state \<Rightarrow> copy_state" where
  "debug_if_warn msg st = (if warnTruncate st then st\<lparr>SgDebug := SgDebug st @ [msg]\<rparr> else st)"

text \<open>The three tests of \<open>CopySubtree\<close> that set the local \<open>truncate\<close>, in their order.\<close>

definition CopySubtree_checks :: "copy_env \<Rightarrow> real \<Rightarrow> nat \<Rightarrow> copy_state \<Rightarrow> copy_state \<times> bool" where
  "CopySubtree_checks env maxTime nuChildren st0 =
     (let truncate = False;
          (st, truncate) =
            (if \<not> HasCapacity (m_allocators (target st0) ! currentAllocatorId st0) nuChildren
             then (debug_if_warn msg_capacity st0, True) else (st0, truncate));
          k = polls st;
          st = st\<lparr>polls := k + 1\<rparr>;
          (st, truncate) =
            (if IsTimeOut env maxTime k then (debug_if_warn msg_max_time st, True)
             else (st, truncate));
          (st, truncate) =
            (if SgUserAbort env k then (debug_if_warn msg_aborted st, True)
             else (st, truncate))
      in (st, truncate))"

text \<open>The loop that creates the target children, contiguous in the target allocator.\<close>

fun CopySubtree_create :: "nat \<Rightarrow> nat \<Rightarrow> SgUctTree \<Rightarrow> error + SgUctTree" where
  "CopySubtree_create a 0 t = Inr t"
| "CopySubtree_create a (Suc k) t =
     (let targetChild = new_SgUctNode SG_NULLMOVE in
      if \<not> HasCapacity (m_allocators t ! a) 1 then Inl AssertionFailed
      else CopySubtree_create a k (push_back a targetChild t))"

text \<open>
  The loop over the source children; \<open>rec\<close> is the recursive call.  The \<open>i\<close>-th child is
  copied into \<open>targetNodes[firstTargetChild + i]\<close>, after the current allocator has moved
  on cyclically.
\<close>

fun CopySubtree_recurse ::
  "(node_ref \<Rightarrow> node_ref \<Rightarrow> copy_state \<Rightarrow> error + copy_state) \<Rightarrow> nat \<Rightarrow> nat \<Rightarrow> nat \<Rightarrow>
     node_ref list \<Rightarrow> copy_state \<Rightarrow> error + copy_state" where
  "CopySubtree_recurse rec a firstTargetChild i [] st = Inr st"
| "CopySubtree_recurse rec a firstTargetChild i (child # its) st =
     (let cur = currentAllocatorId st + 1;
          cur = (if cur \<ge> NuAllocators (target st) then 0 else cur);
          st = st\<lparr>currentAllocatorId := cur\<rparr>
      in case rec (Slot a (firstTargetChild + i)) child st of
           Inl e \<Rightarrow> Inl e
         | Inr st \<Rightarrow> CopySubtree_recurse rec a firstTargetChild (i + 1) its st)"

definition CopySubtree_body ::
  "(node_ref \<Rightarrow> node_ref \<Rightarrow> copy_state \<Rightarrow> error + copy_state) \<Rightarrow> copy_env \<Rightarrow> real \<Rightarrow>
     SgUctTree \<Rightarrow> node_ref \<Rightarrow> node_ref \<Rightarrow> copy_state \<Rightarrow> error + copy_state" where
  "CopySubtree_body rec env maxTime src targetNode node st0 =
     (case deref src node of
        None \<Rightarrow> Inl AssertionFailed
      | Some nd \<Rightarrow>
          if \<not> Contains (target st0) targetNode then Inl AssertionFailed
          else
            let st = st0\<lparr>target := modify targetNode (CopyDataFrom nd) (target st0)\<rparr> in
            if \<not> HasChildren nd then Inr st
            else if \<not> currentAllocatorId st < NuAllocators (target st) then Inl BadDereference
            else
              let a = currentAllocatorId st;
                  nuChildren = num_children nd;
                  (st, truncate) = CopySubtree_checks env maxTime nuChildren st
              in if truncate then
                   Inr (st\<lparr>target := modify targetNode (SetPosCount 0) (target st),
                           warnTruncate := False\<rparr>)
                 else
                   let firstTargetChild = length (alloc_nodes (target st) a);
                       st = st\<lparr>target := modify targetNode
                                 (SetFirstChild (Slot a firstTargetChild)) (target st)\<rparr>;
                       st = st\<lparr>target := modify targetNode (SetNuChildren nuChildren) (target st)\<rparr>
                   in case CopySubtree_create a nuChildren (target st) of
                        Inl e \<Rightarrow> Inl e
                      | Inr tg \<Rightarrow>
                          CopySubtree_recurse rec a firstTargetChild 0 (child_refs nd)
                            (st\<lparr>target := tg\<rparr>))"

text \<open>
  \<open>CopySubtree\<close> recurses along the child pointers of the source tree; the first argument
  bounds the depth of the recursion.
\<close>

primrec CopySubtree ::
  "nat \<Rightarrow> copy_env \<Rightarrow> real \<Rightarrow> SgUctTree \<Rightarrow> node_ref \<Rightarrow> node_ref \<Rightarrow> copy_state \<Rightarrow>
     error + copy_state" where
  "CopySubtree 0 env maxTime src targetNode node st = Inl OutOfFuel"
| "CopySubtree (Suc fuel) env maxTime src targetNode node st =
     CopySubtree_body (CopySubtree fuel env maxTime src) env maxTime src targetNode node st"

text \<open>
  \<open>ExtractSubtree\<close>.  The target is another tree object than the source
  (\<open>SG_ASSERT(&target != this)\<close>): the two are separate values here.  The result is the
  target tree and what was written to \<open>SgDebug()\<close>.
\<close>

definition ExtractSubtree ::
  "nat \<Rightarrow> copy_env \<Rightarrow> SgUctTree \<Rightarrow> SgUctTree \<Rightarrow> node_ref \<Rightarrow> bool \<Rightarrow> real \<Rightarrow>
     error + (SgUctTree \<times> string list)" where
  "ExtractSubtree fuel env this tgt node warn maxTime =
     (if \<not> Contains this node then Inl AssertionFailed
      else if m_maxNodes tgt \<noteq> m_maxNodes this then Inl AssertionFailed
      else
        let tgt = Clear tgt;
            allocatorId = 0;
            st = \<lparr>target = tgt, currentAllocatorId = allocatorId, warnTruncate = warn,
                  polls = 0, SgDebug = []\<rparr>
        in case CopySubtree fuel env maxTime this RootRef node st of
             Inl e \<Rightarrow> Inl e
           | Inr st \<Rightarrow> Inr (target st, SgDebug st))"

subsection \<open>Observing a tree\<close>

text \<open>
  The subtree below a node, read off the allocators along the child pointers: at each node
  its data (the node with its child links erased) and the subtrees of its children in
  order.  The list of the addresses visited is read off the same way.  Both are bounded in
  depth and fail on a pointer that addresses no node.
\<close>

datatype utree = UNode SgUctNode "utree list"

definition node_data :: "SgUctNode \<Rightarrow> SgUctNode" where
  "node_data n = n\<lparr>first_child := NullRef, num_children := 0\<rparr>"

primrec subtree :: "nat \<Rightarrow> SgUctTree \<Rightarrow> node_ref \<Rightarrow> utree option" where
  "subtree 0 t r = None"
| "subtree (Suc n) t r =
     (case deref t r of
        None \<Rightarrow> None
      | Some nd \<Rightarrow>
          (case those (map (subtree n t) (child_refs nd)) of
             None \<Rightarrow> None
           | Some us \<Rightarrow> Some (UNode (node_data nd) us)))"

primrec subtree_refs :: "nat \<Rightarrow> SgUctTree \<Rightarrow> node_ref \<Rightarrow> node_ref list option" where
  "subtree_refs 0 t r = None"
| "subtree_refs (Suc n) t r =
     (case deref t r of
        None \<Rightarrow> None
      | Some nd \<Rightarrow>
          (case those (map (subtree_refs n t) (child_refs nd)) of
             None \<Rightarrow> None
           | Some rss \<Rightarrow> Some (r # concat rss)))"

fun usize :: "utree \<Rightarrow> nat" where
  "usize (UNode d us) = 1 + sum_list (map usize us)"

text \<open>The child relation of a tree and the nodes reachable from a node.\<close>

definition child_rel :: "SgUctTree \<Rightarrow> (node_ref \<times> node_ref) set" where
  "child_rel t = {(r, c). \<exists>nd. deref t r = Some nd \<and> c \<in> set (child_refs nd)}"

definition reachable :: "SgUctTree \<Rightarrow> node_ref \<Rightarrow> node_ref set" where
  "reachable t r = {c. (r, c) \<in> (child_rel t)\<^sup>*}"

text \<open>The children of a node, read through its child pointers.\<close>

definition children_of :: "SgUctTree \<Rightarrow> node_ref \<Rightarrow> SgUctNode list option" where
  "children_of t r =
     (case deref t r of None \<Rightarrow> None | Some nd \<Rightarrow> those (map (deref t) (child_refs nd)))"

text \<open>
  Two notions used to state what \<open>CreateChildren\<close> and \<open>ApplyFilter\<close> leave behind: the
  tree in which the nodes \<open>ns\<close> have been appended to allocator \<open>a\<close> and published as the
  children of \<open>node\<close>; and the moves of a child block that a filter lets through.
\<close>

definition publish_children :: "node_ref \<Rightarrow> nat \<Rightarrow> SgUctNode list \<Rightarrow> SgUctTree \<Rightarrow> SgUctTree" where
  "publish_children node a ns t =
     modify node (SetNuChildren (length ns))
       (modify node (SetFirstChild (Slot a (length (alloc_nodes t a)))) (append_nodes a ns t))"

definition surviving_moves :: "SgMove list \<Rightarrow> SgUctNode list \<Rightarrow> SgMove list" where
  "surviving_moves rootFilter chs = filter (\<lambda>m. m \<notin> set rootFilter) (map move chs)"

text \<open>
  The lines that the three tests of \<open>CopySubtree\<close> write at one node when warnings are on:
  one for each reason that holds, in the order of the tests.
\<close>

definition reason_msgs :: "bool \<Rightarrow> bool \<Rightarrow> bool \<Rightarrow> string list" where
  "reason_msgs no_capacity timed_out aborted =
     (if no_capacity then [msg_capacity] else []) @
     (if timed_out then [msg_max_time] else []) @
     (if aborted then [msg_aborted] else [])"

text \<open>
  Structural validity of a tree: a node with children has a first child that points into
  some allocator, with all its children inside that allocator's vector; and no allocator
  holds more nodes than its capacity.
\<close>

definition valid_node :: "SgUctTree \<Rightarrow> SgUctNode \<Rightarrow> bool" where
  "valid_node t nd =
     (num_children nd = 0 \<or>
      (case first_child nd of
         Slot a i \<Rightarrow> a < NuAllocators t \<and> i + num_children nd \<le> length (alloc_nodes t a)
       | RootRef \<Rightarrow> False
       | NullRef \<Rightarrow> False))"

definition valid_tree :: "SgUctTree \<Rightarrow> bool" where
  "valid_tree t =
     (valid_node t (m_root t) \<and>
      list_all (\<lambda>al. list_all (valid_node t) (m_nodes al) \<and> length (m_nodes al) \<le> capacity al)
        (m_allocators t))"

text \<open>
  The state in which \<open>CopySubtree\<close> enters its loop over the children when it does not
  truncate: the target node holds the data of the source node and the child links to a
  block of \<open>NuChildren()\<close> new null-move nodes at the end of the current allocator.
\<close>

definition descend_state :: "node_ref \<Rightarrow> SgUctNode \<Rightarrow> copy_state \<Rightarrow> copy_state" where
  "descend_state targetNode nd st =
     st\<lparr>target :=
          append_nodes (currentAllocatorId st)
            (replicate (num_children nd) (new_SgUctNode SG_NULLMOVE))
            (modify targetNode (SetNuChildren (num_children nd))
               (modify targetNode
                  (SetFirstChild
                     (Slot (currentAllocatorId st)
                        (length (alloc_nodes (target st) (currentAllocatorId st)))))
                  (modify targetNode (CopyDataFrom nd) (target st)))),
        polls := polls st + 1\<rparr>"

text \<open>The state in which \<open>CopySubtree\<close> returns when it truncates at a node.\<close>

definition truncate_state ::
  "copy_env \<Rightarrow> real \<Rightarrow> node_ref \<Rightarrow> SgUctNode \<Rightarrow> copy_state \<Rightarrow> copy_state" where
  "truncate_state env maxTime targetNode nd st =
     st\<lparr>target := modify targetNode (SetPosCount 0)
                    (modify targetNode (CopyDataFrom nd) (target st)),
        polls := polls st + 1,
        SgDebug := SgDebug st @
          (if warnTruncate st
           then reason_msgs
                  (\<not> HasCapacity (m_allocators (target st) ! currentAllocatorId st)
                       (num_children nd))
                  (IsTimeOut env maxTime (polls st)) (SgUserAbort env (polls st))
           else []),
        warnTruncate := False\<rparr>"

text \<open>Whether one of the three reasons to truncate holds at a node.\<close>

definition must_truncate :: "copy_env \<Rightarrow> real \<Rightarrow> SgUctNode \<Rightarrow> copy_state \<Rightarrow> bool" where
  "must_truncate env maxTime nd st =
     (\<not> HasCapacity (m_allocators (target st) ! currentAllocatorId st) (num_children nd)
      \<or> IsTimeOut env maxTime (polls st) \<or> SgUserAbort env (polls st))"

text \<open>
  Relations between the state before and after a call of \<open>CopySubtree\<close>, used to state its
  invariants.  The target only grows: same allocators, same capacities, no vector gets
  shorter.  Warnings: with \<open>warnTruncate\<close> off nothing is written; with it on, either
  nothing is written and it stays on, or the lines of one truncated node are written and it
  is off afterwards.
\<close>

definition grows :: "SgUctTree \<Rightarrow> SgUctTree \<Rightarrow> bool" where
  "grows t t' =
     (NuAllocators t' = NuAllocators t \<and> m_maxNodes t' = m_maxNodes t
      \<and> (\<forall>a. length (alloc_nodes t a) \<le> length (alloc_nodes t' a))
      \<and> (\<forall>a. capacity (m_allocators t' ! a) = capacity (m_allocators t ! a)))"

definition warned :: "copy_state \<Rightarrow> copy_state \<Rightarrow> bool" where
  "warned st st' =
     (if warnTruncate st
      then (warnTruncate st' \<and> SgDebug st' = SgDebug st)
           \<or> (\<not> warnTruncate st'
               \<and> (\<exists>c t a. (c \<or> t \<or> a) \<and> SgDebug st' = SgDebug st @ reason_msgs c t a))
      else \<not> warnTruncate st' \<and> SgDebug st' = SgDebug st)"

definition copy_rel :: "copy_state \<Rightarrow> copy_state \<Rightarrow> bool" where
  "copy_rel st st' =
     (grows (target st) (target st') \<and> warned st st'
      \<and> (valid_tree (target st) \<longrightarrow> valid_tree (target st')))"

text \<open>The allocator that the loop over the children moves on to before each recursive call.\<close>

definition next_allocator :: "copy_state \<Rightarrow> nat" where
  "next_allocator st =
     (if currentAllocatorId st + 1 \<ge> NuAllocators (target st) then 0
      else currentAllocatorId st + 1)"

text \<open>
  The subtree \<open>u\<close> of the source below \<open>node\<close> has been copied to the target node \<open>tn\<close>:
  read off the new target \<open>t'\<close> at \<open>tn\<close> it is the same subtree, and apart from \<open>tn\<close> itself
  it lies in nodes that the old target \<open>t\<close> did not contain.
\<close>

definition copied ::
  "nat \<Rightarrow> SgUctTree \<Rightarrow> node_ref \<Rightarrow> SgUctTree \<Rightarrow> SgUctTree \<Rightarrow> node_ref \<Rightarrow> utree \<Rightarrow> bool" where
  "copied n src node t t' tn u =
     (subtree n src node = Some u \<and> subtree n t' tn = Some u
      \<and> (\<exists>rs. subtree_refs n t' tn = Some rs \<and> (\<forall>r \<in> set rs. r = tn \<or> \<not> Contains t r)))"

text \<open>
  The nodes below \<open>r\<close> form a tree of depth at most \<open>n\<close>: every child pointer on the way
  addresses a node, and no node is reached twice.
\<close>

definition is_tree_below :: "nat \<Rightarrow> SgUctTree \<Rightarrow> node_ref \<Rightarrow> bool" where
  "is_tree_below n t r = (case subtree_refs n t r of None \<Rightarrow> False | Some rs \<Rightarrow> distinct rs)"

text \<open>A state of the copy with another warning flag and debug output.\<close>

definition with_warn :: "bool \<Rightarrow> string list \<Rightarrow> copy_state \<Rightarrow> copy_state" where
  "with_warn w d st = st\<lparr>warnTruncate := w, SgDebug := d\<rparr>"

section \<open>GoUctCommands: the parameter commands\<close>

text \<open>
  Modelled from the spec: \<open>GtpCommand\<close> and \<open>GtpFailure\<close> (the GTP engine), \<open>GoUctPlayer\<close>,
  \<open>GoUctSearch\<close> and \<open>SgUctSearch\<close> are not among the sources.  A command carries its
  arguments as strings; a conversion that fails throws \<open>GtpFailure\<close>; \<open>SizeTypeArg(i, min)\<close>
  and \<open>IntArg(i, min)\<close> also fail on a value below \<open>min\<close> (the spec gives the parameters
  read this way as integers \<open>\<ge> 1\<close> and has bad values rejected at set-time).  How a string
  is read as a boolean, an integer or a float, and how it is lower-cased, is left open:
  it is a parameter \<open>sx\<close> of the model.  The parameters of player and search are plain
  fields and their setters store the value.
\<close>

datatype GtpFailure = GtpFailure string

record GtpCommand =
  m_arguments :: "string list"

record GtpSyntax =
  bool_of_string :: "string \<Rightarrow> bool option"
  size_of_string :: "string \<Rightarrow> nat option"
  int_of_string :: "string \<Rightarrow> int option"
  float_of_string :: "string \<Rightarrow> real option"
  to_lower :: "string \<Rightarrow> string"

definition NuArg :: "GtpCommand \<Rightarrow> nat" where
  "NuArg cmd = length (m_arguments cmd)"

definition CheckNuArgLessEqual :: "nat \<Rightarrow> GtpCommand \<Rightarrow> GtpFailure + unit" where
  "CheckNuArgLessEqual n cmd =
     (if NuArg cmd > n then Inl (GtpFailure ''too many arguments'') else Inr ())"

definition Arg :: "GtpCommand \<Rightarrow> nat \<Rightarrow> GtpFailure + string" where
  "Arg cmd i =
     (if i < NuArg cmd then Inr (m_arguments cmd ! i) else Inl (GtpFailure ''missing argument''))"

definition ArgToLower :: "GtpSyntax \<Rightarrow> GtpCommand \<Rightarrow> nat \<Rightarrow> GtpFailure + string" where
  "ArgToLower sx cmd i = (case Arg cmd i of Inl f \<Rightarrow> Inl f | Inr s \<Rightarrow> Inr (to_lower sx s))"

definition BoolArg :: "GtpSyntax \<Rightarrow> GtpCommand \<Rightarrow> nat \<Rightarrow> GtpFailure + bool" where
  "BoolArg sx cmd i =
     (case Arg cmd i of
        Inl f \<Rightarrow> Inl f
      | Inr s \<Rightarrow>
          (case bool_of_string sx s of
             None \<Rightarrow> Inl (GtpFailure ''argument must be a bool'')
           | Some b \<Rightarrow> Inr b))"

definition FloatArg :: "GtpSyntax \<Rightarrow> GtpCommand \<Rightarrow> nat \<Rightarrow> GtpFailure + real" where
  "FloatArg sx cmd i =
     (case Arg cmd i of
        Inl f \<Rightarrow> Inl f
      | Inr s \<Rightarrow>
          (case float_of_string sx s of
             None \<Rightarrow> Inl (GtpFailure ''argument must be a float'')
           | Some x \<Rightarrow> Inr x))"

definition SizeTypeArg :: "GtpSyntax \<Rightarrow> GtpCommand \<Rightarrow> nat \<Rightarrow> nat \<Rightarrow> GtpFailure + nat" where
  "SizeTypeArg sx cmd i minimum =
     (case Arg cmd i of
        Inl f \<Rightarrow> Inl f
      | Inr s \<Rightarrow>
          (case size_of_string sx s of
             None \<Rightarrow> Inl (GtpFailure ''argument must be a size'')
           | Some n \<Rightarrow>
               if n < minimum then Inl (GtpFailure ''argument must be greater or equal to the minimum'')
               else Inr n))"

definition IntArg :: "GtpSyntax \<Rightarrow> GtpCommand \<Rightarrow> nat \<Rightarrow> int \<Rightarrow> GtpFailure + int" where
  "IntArg sx cmd i minimum =
     (case Arg cmd i of
        Inl f \<Rightarrow> Inl f
      | Inr s \<Rightarrow>
          (case int_of_string sx s of
             None \<Rightarrow> Inl (GtpFailure ''argument must be an integer'')
           | Some n \<Rightarrow>
               if n < minimum then Inl (GtpFailure ''argument must be greater or equal to the minimum'')
               else Inr n))"

subsection \<open>The enumeration arguments (GoUctCommands.cpp)\<close>

datatype GoUctLiveGfx = GOUCT_LIVEGFX_NONE | GOUCT_LIVEGFX_COUNTS | GOUCT_LIVEGFX_SEQUENCE

datatype SgUctMoveSelect =
  SG_UCTMOVESELECT_VALUE | SG_UCTMOVESELECT_COUNT | SG_UCTMOVESELECT_BOUND
  | SG_UCTMOVESELECT_ESTIMATE

datatype GoUctGlobalSearchPrior =
  GOUCT_PRIORKNOWLEDGE_NONE | GOUCT_PRIORKNOWLEDGE_EVEN | GOUCT_PRIORKNOWLEDGE_DEFAULT

datatype GoUctGlobalSearchMode =
  GOUCT_SEARCHMODE_PLAYOUTPOLICY | GOUCT_SEARCHMODE_UCT | GOUCT_SEARCHMODE_ONEPLY

definition LiveGfxArg :: "GtpSyntax \<Rightarrow> GtpCommand \<Rightarrow> nat \<Rightarrow> GtpFailure + GoUctLiveGfx" where
  "LiveGfxArg sx cmd number =
     (case ArgToLower sx cmd number of
        Inl f \<Rightarrow> Inl f
      | Inr arg \<Rightarrow>
          if arg = ''none'' then Inr GOUCT_LIVEGFX_NONE
          else if arg = ''counts'' then Inr GOUCT_LIVEGFX_COUNTS
          else if arg = ''sequence'' then Inr GOUCT_LIVEGFX_SEQUENCE
          else Inl (GtpFailure (''unknown live-gfx argument '' @ arg)))"

definition MoveSelectArg :: "GtpSyntax \<Rightarrow> GtpCommand \<Rightarrow> nat \<Rightarrow> GtpFailure + SgUctMoveSelect" where
  "MoveSelectArg sx cmd number =
     (case ArgToLower sx cmd number of
        Inl f \<Rightarrow> Inl f
      | Inr arg \<Rightarrow>
          if arg = ''value'' then Inr SG_UCTMOVESELECT_VALUE
          else if arg = ''count'' then Inr SG_UCTMOVESELECT_COUNT
          else if arg = ''bound'' then Inr SG_UCTMOVESELECT_BOUND
          else if arg = ''estimate'' then Inr SG_UCTMOVESELECT_ESTIMATE
          else Inl (GtpFailure (''unknown move select argument '' @ arg)))"

definition PriorKnowledgeArg ::
  "GtpSyntax \<Rightarrow> GtpCommand \<Rightarrow> nat \<Rightarrow> GtpFailure + GoUctGlobalSearchPrior" where
  "PriorKnowledgeArg sx cmd number =
     (case ArgToLower sx cmd number of
        Inl f \<Rightarrow> Inl f
      | Inr arg \<Rightarrow>
          if arg = ''none'' then Inr GOUCT_PRIORKNOWLEDGE_NONE
          else if arg = ''even'' then Inr GOUCT_PRIORKNOWLEDGE_EVEN
          else if arg = ''default'' then Inr GOUCT_PRIORKNOWLEDGE_DEFAULT
          else Inl (GtpFailure (''unknown prior knowledge argument '' @ arg)))"

definition SearchModeArg ::
  "GtpSyntax \<Rightarrow> GtpCommand \<Rightarrow> nat \<Rightarrow> GtpFailure + GoUctGlobalSearchMode" where
  "SearchModeArg sx cmd number =
     (case ArgToLower sx cmd number of
        Inl f \<Rightarrow> Inl f
      | Inr arg \<Rightarrow>
          if arg = ''playout_policy'' then Inr GOUCT_SEARCHMODE_PLAYOUTPOLICY
          else if arg = ''uct'' then Inr GOUCT_SEARCHMODE_UCT
          else if arg = ''one_ply'' then Inr GOUCT_SEARCHMODE_ONEPLY
          else Inl (GtpFailure (''unknown search mode argument '' @ arg)))"

subsection \<open>Player and search parameters\<close>

record GoUctSearch =
  KeepGames :: bool
  LockFree :: bool
  LogGames :: bool
  NoBiasTerm :: bool
  Rave :: bool
  RaveCheckSame :: bool
  BiasTermConstant :: real
  ExpandThreshold :: nat
  FirstPlayUrgency :: real
  LiveGfx :: GoUctLiveGfx
  LiveGfxInterval :: int
  MoveSelect :: SgUctMoveSelect
  NumberThreads :: nat
  NumberPlayouts :: int
  RaveWeightFinal :: real
  RaveWeightInitial :: real

record GoUctPlayer =
  AutoParam :: bool
  EarlyPass :: bool
  IgnoreClock :: bool
  EnablePonder :: bool
  ReuseSubtree :: bool
  UseRootFilter :: bool
  MaxGames :: nat
  MaxNodes :: nat
  MaxTime :: real
  PriorKnowledge :: GoUctGlobalSearchPrior
  ResignThreshold :: real
  SearchMode :: GoUctGlobalSearchMode
  m_search :: GoUctSearch

text \<open>
  \<open>m_player\<close> is null, some other player, or a \<open>GoUctPlayer\<close>.  \<open>Player()\<close> and \<open>Search()\<close>
  fail on a player of another class.  \<open>Search()\<close> dereferences \<open>m_player\<close> without a null
  test; the model lets it fail like the cast.
\<close>

datatype GoPlayer = OtherPlayer | UctPlayer GoUctPlayer

definition Player :: "GoPlayer option \<Rightarrow> GtpFailure + GoUctPlayer" where
  "Player m_player =
     (case m_player of
        None \<Rightarrow> Inl (GtpFailure ''player not GoUctPlayer'')
      | Some OtherPlayer \<Rightarrow> Inl (GtpFailure ''player not GoUctPlayer'')
      | Some (UctPlayer p) \<Rightarrow> Inr p)"

definition Search :: "GoPlayer option \<Rightarrow> GtpFailure + GoUctSearch" where
  "Search m_player =
     (case m_player of
        None \<Rightarrow> Inl (GtpFailure ''player is not a GoUctObjectWithSearch'')
      | Some OtherPlayer \<Rightarrow> Inl (GtpFailure ''player is not a GoUctObjectWithSearch'')
      | Some (UctPlayer p) \<Rightarrow> Inr (m_search p))"

text \<open>
  The response of a command: the lines it writes, each a type tag, a name and a value.
\<close>

datatype param_value =
  PBool bool | PSize nat | PInt int | PFloat real | PLiveGfx GoUctLiveGfx
  | PMoveSelect SgUctMoveSelect | PPrior GoUctGlobalSearchPrior | PMode GoUctGlobalSearchMode

type_synonym response = "(string \<times> string \<times> param_value) list"

text \<open>
  \<open>p.SetX(cmd.XArg(1))\<close>: the argument is converted first; if that throws, the setter is
  never called.
\<close>

definition set_param ::
  "GtpFailure + 'a \<Rightarrow> ('a \<Rightarrow> 's \<Rightarrow> 's) \<Rightarrow> 's \<Rightarrow> (GtpFailure + response) \<times> 's" where
  "set_param arg setter s = (case arg of Inl f \<Rightarrow> (Inl f, s) | Inr v \<Rightarrow> (Inr [], setter v s))"

definition CmdParamPlayer_set ::
  "GtpSyntax \<Rightarrow> GtpCommand \<Rightarrow> string \<Rightarrow> GoUctPlayer \<Rightarrow> (GtpFailure + response) \<times> GoUctPlayer" where
  "CmdParamPlayer_set sx cmd name p =
     (if name = ''auto_param'' then set_param (BoolArg sx cmd 1) (\<lambda>v p. p\<lparr>AutoParam := v\<rparr>) p
      else if name = ''early_pass'' then set_param (BoolArg sx cmd 1) (\<lambda>v p. p\<lparr>EarlyPass := v\<rparr>) p
      else if name = ''ignore_clock'' then
        set_param (BoolArg sx cmd 1) (\<lambda>v p. p\<lparr>IgnoreClock := v\<rparr>) p
      else if name = ''ponder'' then set_param (BoolArg sx cmd 1) (\<lambda>v p. p\<lparr>EnablePonder := v\<rparr>) p
      else if name = ''reuse_subtree'' then
        set_param (BoolArg sx cmd 1) (\<lambda>v p. p\<lparr>ReuseSubtree := v\<rparr>) p
      else if name = ''use_root_filter'' then
        set_param (BoolArg sx cmd 1) (\<lambda>v p. p\<lparr>UseRootFilter := v\<rparr>) p
      else if name = ''max_games'' then
        set_param (SizeTypeArg sx cmd 1 1) (\<lambda>v p. p\<lparr>MaxGames := v\<rparr>) p
      else if name = ''max_nodes'' then
        set_param (SizeTypeArg sx cmd 1 1) (\<lambda>v p. p\<lparr>MaxNodes := v\<rparr>) p
      else if name = ''max_time'' then set_param (FloatArg sx cmd 1) (\<lambda>v p. p\<lparr>MaxTime := v\<rparr>) p
      else if name = ''prior_knowledge'' then
        set_param (PriorKnowledgeArg sx cmd 1) (\<lambda>v p. p\<lparr>PriorKnowledge := v\<rparr>) p
      else if name = ''resign_threshold'' then
        set_param (FloatArg sx cmd 1) (\<lambda>v p. p\<lparr>ResignThreshold := v\<rparr>) p
      else if name = ''search_mode'' then
        set_param (SearchModeArg sx cmd 1) (\<lambda>v p. p\<lparr>SearchMode := v\<rparr>) p
      else (Inl (GtpFailure (''unknown parameter: '' @ name)), p))"

definition CmdParamPlayer ::
  "GtpSyntax \<Rightarrow> GtpCommand \<Rightarrow> GoPlayer option \<Rightarrow> (GtpFailure + response) \<times> GoPlayer option" where
  "CmdParamPlayer sx cmd m_player =
     (case CheckNuArgLessEqual 2 cmd of
        Inl f \<Rightarrow> (Inl f, m_player)
      | Inr u \<Rightarrow>
          (case Player m_player of
             Inl f \<Rightarrow> (Inl f, m_player)
           | Inr p \<Rightarrow>
               if NuArg cmd = 0 then
                 (Inr [(''bool'', ''auto_param'', PBool (AutoParam p)),
                       (''bool'', ''early_pass'', PBool (EarlyPass p)),
                       (''bool'', ''ignore_clock'', PBool (IgnoreClock p)),
                       (''bool'', ''ponder'', PBool (EnablePonder p)),
                       (''bool'', ''reuse_subtree'', PBool (ReuseSubtree p)),
                       (''bool'', ''use_root_filter'', PBool (UseRootFilter p)),
                       (''string'', ''max_games'', PSize (MaxGames p)),
                       (''string'', ''max_nodes'', PSize (MaxNodes p)),
                       (''string'', ''max_time'', PFloat (MaxTime p)),
                       (''list/none/even/default'', ''prior_knowledge'', PPrior (PriorKnowledge p)),
                       (''string'', ''resign_threshold'', PFloat (ResignThreshold p)),
                       (''list/playout_policy/uct/one_ply'', ''search_mode'', PMode (SearchMode p))],
                  m_player)
               else if NuArg cmd \<ge> 1 \<and> NuArg cmd \<le> 2 then
                 (case Arg cmd 0 of
                    Inl f \<Rightarrow> (Inl f, m_player)
                  | Inr name \<Rightarrow>
                      (case CmdParamPlayer_set sx cmd name p of
                         (r, p') \<Rightarrow> (r, Some (UctPlayer p'))))
               else (Inl (GtpFailure ''need 0 or 2 arguments''), m_player)))"

definition CmdParamSearch_set ::
  "GtpSyntax \<Rightarrow> GtpCommand \<Rightarrow> string \<Rightarrow> GoUctSearch \<Rightarrow> (GtpFailure + response) \<times> GoUctSearch" where
  "CmdParamSearch_set sx cmd name s =
     (if name = ''keep_games'' then set_param (BoolArg sx cmd 1) (\<lambda>v s. s\<lparr>KeepGames := v\<rparr>) s
      else if name = ''lock_free'' then set_param (BoolArg sx cmd 1) (\<lambda>v s. s\<lparr>LockFree := v\<rparr>) s
      else if name = ''log_games'' then set_param (BoolArg sx cmd 1) (\<lambda>v s. s\<lparr>LogGames := v\<rparr>) s
      else if name = ''no_bias_term'' then
        set_param (BoolArg sx cmd 1) (\<lambda>v s. s\<lparr>NoBiasTerm := v\<rparr>) s
      else if name = ''rave'' then set_param (BoolArg sx cmd 1) (\<lambda>v s. s\<lparr>Rave := v\<rparr>) s
      else if name = ''rave_check_same'' then
        set_param (BoolArg sx cmd 1) (\<lambda>v s. s\<lparr>RaveCheckSame := v\<rparr>) s
      else if name = ''bias_term_constant'' then
        set_param (FloatArg sx cmd 1) (\<lambda>v s. s\<lparr>BiasTermConstant := v\<rparr>) s
      else if name = ''expand_threshold'' then
        set_param (SizeTypeArg sx cmd 1 1) (\<lambda>v s. s\<lparr>ExpandThreshold := v\<rparr>) s
      else if name = ''first_play_urgency'' then
        set_param (FloatArg sx cmd 1) (\<lambda>v s. s\<lparr>FirstPlayUrgency := v\<rparr>) s
      else if name = ''live_gfx'' then set_param (LiveGfxArg sx cmd 1) (\<lambda>v s. s\<lparr>LiveGfx := v\<rparr>) s
      else if name = ''live_gfx_interval'' then
        set_param (IntArg sx cmd 1 1) (\<lambda>v s. s\<lparr>LiveGfxInterval := v\<rparr>) s
      else if name = ''move_select'' then
        set_param (MoveSelectArg sx cmd 1) (\<lambda>v s. s\<lparr>MoveSelect := v\<rparr>) s
      else if name = ''number_threads'' then
        set_param (SizeTypeArg sx cmd 1 1) (\<lambda>v s. s\<lparr>NumberThreads := v\<rparr>) s
      else if name = ''number_playouts'' then
        set_param (IntArg sx cmd 1 1) (\<lambda>v s. s\<lparr>NumberPlayouts := v\<rparr>) s
      else if name = ''rave_weight_final'' then
        set_param (FloatArg sx cmd 1) (\<lambda>v s. s\<lparr>RaveWeightFinal := v\<rparr>) s
      else if name = ''rave_weight_initial'' then
        set_param (FloatArg sx cmd 1) (\<lambda>v s. s\<lparr>RaveWeightInitial := v\<rparr>) s
      else (Inl (GtpFailure (''unknown parameter: '' @ name)), s))"

text \<open>
  \<open>Search()\<close> hands out a reference to the search of the player; the changed search is
  stored back into the player.
\<close>

definition put_search :: "GoUctSearch \<Rightarrow> GoPlayer option \<Rightarrow> GoPlayer option" where
  "put_search s m_player =
     (case m_player of Some (UctPlayer p) \<Rightarrow> Some (UctPlayer (p\<lparr>m_search := s\<rparr>)) | _ \<Rightarrow> m_player)"

definition CmdParamSearch ::
  "GtpSyntax \<Rightarrow> GtpCommand \<Rightarrow> GoPlayer option \<Rightarrow> (GtpFailure + response) \<times> GoPlayer option" where
  "CmdParamSearch sx cmd m_player =
     (case CheckNuArgLessEqual 2 cmd of
        Inl f \<Rightarrow> (Inl f, m_player)
      | Inr u \<Rightarrow>
          (case Search m_player of
             Inl f \<Rightarrow> (Inl f, m_player)
           | Inr s \<Rightarrow>
               if NuArg cmd = 0 then
                 (Inr [(''bool'', ''keep_games'', PBool (KeepGames s)),
                       (''bool'', ''lock_free'', PBool (LockFree s)),
                       (''bool'', ''log_games'', PBool (LogGames s)),
                       (''bool'', ''no_bias_term'', PBool (NoBiasTerm s)),
                       (''bool'', ''rave'', PBool (Rave s)),
                       (''bool'', ''rave_check_same'', PBool (RaveCheckSame s)),
                       (''string'', ''bias_term_constant'', PFloat (BiasTermConstant s)),
                       (''string'', ''expand_threshold'', PSize (ExpandThreshold s)),
                       (''string'', ''first_play_urgency'', PFloat (FirstPlayUrgency s)),
                       (''list/none/counts/sequence'', ''live_gfx'', PLiveGfx (LiveGfx s)),
                       (''string'', ''live_gfx_interval'', PInt (LiveGfxInterval s)),
                       (''list/value/count/bound/estimate'', ''move_select'',
                          PMoveSelect (MoveSelect s)),
                       (''string'', ''number_threads'', PSize (NumberThreads s)),
                       (''string'', ''number_playouts'', PInt (NumberPlayouts s)),
                       (''string'', ''rave_weight_final'', PFloat (RaveWeightFinal s)),
                       (''string'', ''rave_weight_initial'', PFloat (RaveWeightInitial s))],
                  m_player)
               else if NuArg cmd = 2 then
                 (case Arg cmd 0 of
                    Inl f \<Rightarrow> (Inl f, m_player)
                  | Inr name \<Rightarrow>
                      (case CmdParamSearch_set sx cmd name s of
                         (r, s') \<Rightarrow> (r, put_search s' m_player)))
               else (Inl (GtpFailure ''need 0 or 2 arguments''), m_player)))"

text \<open>The parameter names the two commands know, and the names of the enumeration values.\<close>

definition player_param_names :: "string list" where
  "player_param_names =
     [''auto_param'', ''early_pass'', ''ignore_clock'', ''ponder'', ''reuse_subtree'',
      ''use_root_filter'', ''max_games'', ''max_nodes'', ''max_time'', ''prior_knowledge'',
      ''resign_threshold'', ''search_mode'']"

definition search_param_names :: "string list" where
  "search_param_names =
     [''keep_games'', ''lock_free'', ''log_games'', ''no_bias_term'', ''rave'',
      ''rave_check_same'', ''bias_term_constant'', ''expand_threshold'', ''first_play_urgency'',
      ''live_gfx'', ''live_gfx_interval'', ''move_select'', ''number_threads'',
      ''number_playouts'', ''rave_weight_final'', ''rave_weight_initial'']"

text \<open>
  A value below the minimum 1: the string is not read as a number at all, or as a number
  smaller than 1.
\<close>

definition size_below_one :: "GtpSyntax \<Rightarrow> string \<Rightarrow> bool" where
  "size_below_one sx v = (case size_of_string sx v of None \<Rightarrow> True | Some n \<Rightarrow> n < 1)"

definition int_below_one :: "GtpSyntax \<Rightarrow> string \<Rightarrow> bool" where
  "int_below_one sx v = (case int_of_string sx v of None \<Rightarrow> True | Some n \<Rightarrow> n < 1)"

text \<open>The requests the claim speaks of: a key with a value that must be rejected.\<close>

definition bad_search_request :: "GtpSyntax \<Rightarrow> string \<Rightarrow> string \<Rightarrow> bool" where
  "bad_search_request sx name v =
     (name \<notin> set search_param_names
      \<or> (name = ''expand_threshold'' \<or> name = ''number_threads'') \<and> size_below_one sx v
      \<or> (name = ''number_playouts'' \<or> name = ''live_gfx_interval'') \<and> int_below_one sx v
      \<or> name = ''live_gfx'' \<and> to_lower sx v \<notin> {''none'', ''counts'', ''sequence''}
      \<or> name = ''move_select'' \<and> to_lower sx v \<notin> {''value'', ''count'', ''bound'', ''estimate''})"

definition bad_player_request :: "GtpSyntax \<Rightarrow> string \<Rightarrow> string \<Rightarrow> bool" where
  "bad_player_request sx name v =
     (name \<notin> set player_param_names
      \<or> (name = ''max_games'' \<or> name = ''max_nodes'') \<and> size_below_one sx v
      \<or> name = ''prior_knowledge'' \<and> to_lower sx v \<notin> {''none'', ''even'', ''default''}
      \<or> name = ''search_mode'' \<and> to_lower sx v \<notin> {''playout_policy'', ''uct'', ''one_ply''})"

section \<open>Concrete trees\<close>

text \<open>
  A small tree with two allocators of capacity 4: the root has the children with moves 3
  and 4 in allocator 0, and the child with move 3 has one child, with move 5, in
  allocator 1.
\<close>

definition ex_node :: "SgMove \<Rightarrow> nat \<Rightarrow> real \<Rightarrow> node_ref \<Rightarrow> nat \<Rightarrow> SgUctNode" where
  "ex_node mv n mean fc nc =
     \<lparr>move = mv, pos_count = n, move_count = n, mean_value = mean, rave_count = 0,
      rave_mean = 0, first_child = fc, num_children = nc\<rparr>"

definition ex_tree :: SgUctTree where
  "ex_tree =
     \<lparr>m_maxNodes = 8,
      m_root = ex_node SG_NULLMOVE 10 (1/2) (Slot 0 0) 2,
      m_allocators =
        [\<lparr>m_nodes = [ex_node 3 6 (1/2) (Slot 1 0) 1, ex_node 4 4 (1/4) NullRef 0], capacity = 4\<rparr>,
         \<lparr>m_nodes = [ex_node 5 2 1 NullRef 0], capacity = 4\<rparr>]\<rparr>"

text \<open>An empty tree with two allocators of capacity 4, and one with a single allocator.\<close>

definition ex_empty :: SgUctTree where
  "ex_empty =
     \<lparr>m_maxNodes = 8, m_root = new_SgUctNode SG_NULLMOVE,
      m_allocators = [\<lparr>m_nodes = [], capacity = 4\<rparr>, \<lparr>m_nodes = [], capacity = 4\<rparr>]\<rparr>"

definition ex_single :: SgUctTree where
  "ex_single =
     \<lparr>m_maxNodes = 8,
      m_root = ex_node SG_NULLMOVE 10 (1/2) (Slot 0 0) 2,
      m_allocators =
        [\<lparr>m_nodes = [ex_node 3 6 (1/2) NullRef 0, ex_node 4 4 (1/4) NullRef 0], capacity = 8\<rparr>]\<rparr>"

text \<open>
  What \<open>ApplyFilter\<close> makes of \<open>ex_tree\<close> at the root: with allocator 1 and the empty
  filter; with allocator 1 and the filter \<open>[4]\<close>; and from the latter with allocator 0 and
  the filter \<open>[4]\<close> again.
\<close>

definition ex_tree_filter_none :: SgUctTree where
  "ex_tree_filter_none =
     \<lparr>m_maxNodes = 8,
      m_root = ex_node SG_NULLMOVE 10 (1/2) (Slot 1 1) 2,
      m_allocators =
        [\<lparr>m_nodes = [ex_node 3 6 (1/2) (Slot 1 0) 1, ex_node 4 4 (1/4) NullRef 0], capacity = 4\<rparr>,
         \<lparr>m_nodes = [ex_node 5 2 1 NullRef 0, new_SgUctNode 3, new_SgUctNode 4], capacity = 4\<rparr>]\<rparr>"

definition ex_tree_filter_once :: SgUctTree where
  "ex_tree_filter_once =
     \<lparr>m_maxNodes = 8,
      m_root = ex_node SG_NULLMOVE 10 (1/2) (Slot 1 1) 1,
      m_allocators =
        [\<lparr>m_nodes = [ex_node 3 6 (1/2) (Slot 1 0) 1, ex_node 4 4 (1/4) NullRef 0], capacity = 4\<rparr>,
         \<lparr>m_nodes = [ex_node 5 2 1 NullRef 0, new_SgUctNode 3], capacity = 4\<rparr>]\<rparr>"

definition ex_tree_filter_twice :: SgUctTree where
  "ex_tree_filter_twice =
     \<lparr>m_maxNodes = 8,
      m_root = ex_node SG_NULLMOVE 10 (1/2) (Slot 0 2) 1,
      m_allocators =
        [\<lparr>m_nodes = [ex_node 3 6 (1/2) (Slot 1 0) 1, ex_node 4 4 (1/4) NullRef 0, new_SgUctNode 3],
          capacity = 4\<rparr>,
         \<lparr>m_nodes = [ex_node 5 2 1 NullRef 0, new_SgUctNode 3], capacity = 4\<rparr>]\<rparr>"

section \<open>A concrete argument syntax and player\<close>

text \<open>
  Decimal numbers, \<open>0\<close> and \<open>1\<close> for booleans, no floats, ASCII lower-casing.
\<close>

definition digit_value :: "char \<Rightarrow> nat option" where
  "digit_value c = map_of (zip ''0123456789'' [0, 1, 2, 3, 4, 5, 6, 7, 8, 9]) c"

fun read_digits :: "string \<Rightarrow> nat \<Rightarrow> nat option" where
  "read_digits [] acc = Some acc"
| "read_digits (c # cs) acc =
     (case digit_value c of None \<Rightarrow> None | Some d \<Rightarrow> read_digits cs (10 * acc + d))"

definition read_size :: "string \<Rightarrow> nat option" where
  "read_size s = (if s = [] then None else read_digits s 0)"

definition read_int :: "string \<Rightarrow> int option" where
  "read_int s =
     (case s of
        [] \<Rightarrow> None
      | c # cs \<Rightarrow>
          if c = CHR ''-'' then map_option (\<lambda>n. - int n) (read_size cs)
          else map_option int (read_size s))"

definition lower_char :: "char \<Rightarrow> char" where
  "lower_char c =
     (case map_of (zip ''ABCDEFGHIJKLMNOPQRSTUVWXYZ'' ''abcdefghijklmnopqrstuvwxyz'') c of
        None \<Rightarrow> c
      | Some d \<Rightarrow> d)"

definition ex_syntax :: GtpSyntax where
  "ex_syntax =
     \<lparr>bool_of_string = (\<lambda>s. if s = ''1'' then Some True else if s = ''0'' then Some False else None),
      size_of_string = read_size,
      int_of_string = read_int,
      float_of_string = (\<lambda>s. None),
      to_lower = map lower_char\<rparr>"

definition ex_search :: GoUctSearch where
  "ex_search =
     \<lparr>KeepGames = False, LockFree = False, LogGames = False, NoBiasTerm = False, Rave = True,
      RaveCheckSame = False, BiasTermConstant = 7/10, ExpandThreshold = 1,
      FirstPlayUrgency = 10000, LiveGfx = GOUCT_LIVEGFX_NONE, LiveGfxInterval = 5000,
      MoveSelect = SG_UCTMOVESELECT_COUNT, NumberThreads = 1, NumberPlayouts = 1,
      RaveWeightFinal = 5000, RaveWeightInitial = 1\<rparr>"

definition ex_player :: GoUctPlayer where
  "ex_player =
     \<lparr>AutoParam = True, EarlyPass = True, IgnoreClock = False, EnablePonder = False,
      ReuseSubtree = False, UseRootFilter = True, MaxGames = 100000, MaxNodes = 5000000,
      MaxTime = 10, PriorKnowledge = GOUCT_PRIORKNOWLEDGE_DEFAULT, ResignThreshold = 1/10,
      SearchMode = GOUCT_SEARCHMODE_UCT, m_search = ex_search\<rparr>"

section \<open>Concrete environments of an extraction\<close>

text \<open>
  One in which the deadline never passes and the abort flag is never raised, and one in
  which the abort flag is raised all the time.
\<close>

definition ex_env_quiet :: copy_env where
  "ex_env_quiet = \<lparr>IsTimeOut = (\<lambda>maxTime k. False), SgUserAbort = (\<lambda>k. False)\<rparr>"

definition ex_env_abort :: copy_env where
  "ex_env_abort = \<lparr>IsTimeOut = (\<lambda>maxTime k. False), SgUserAbort = (\<lambda>k. True)\<rparr>"

text \<open>
  The empty tree after an extraction from the root of \<open>ex_tree\<close> that truncates at the root:
  the root holds the data of the source root with visit count zero and has no children.
\<close>

definition ex_truncated :: SgUctTree where
  "ex_truncated =
     \<lparr>m_maxNodes = 8,
      m_root = \<lparr>move = SG_NULLMOVE, pos_count = 0, move_count = 10, mean_value = 1/2,
                rave_count = 0, rave_mean = 0, first_child = NullRef, num_children = 0\<rparr>,
      m_allocators = [\<lparr>m_nodes = [], capacity = 4\<rparr>, \<lparr>m_nodes = [], capacity = 4\<rparr>]\<rparr>"

text \<open>The state in which an extraction into \<open>ex_empty\<close> starts, with warnings on.\<close>

definition ex_start :: copy_state where
  "ex_start =
     \<lparr>target = ex_empty, currentAllocatorId = 0, warnTruncate = True, polls = 0, SgDebug = []\<rparr>"

text \<open>An environment in which the deadline has passed and the abort flag is raised.\<close>

definition ex_env_both :: copy_env where
  "ex_env_both = \<lparr>IsTimeOut = (\<lambda>maxTime k. True), SgUserAbort = (\<lambda>k. True)\<rparr>"

section \<open>Properties of the running mean\<close>

lemma Add_fails_iff: "(Add v s = Inl e) = (m_count s = - 1 \<and> e = AssertionFailed)"
proof -
  have "(m_count s + 1 = 0) = (m_count s = - 1)"
    by (simp add: eq_neg_iff_add_eq_0)
  then show ?thesis
    by (auto simp: Add_def Let_def word_greater_zero_iff)
qed

lemma Add_mean_in_unit:
  assumes v: "0 \<le> v" "v \<le> 1" and s: "mean_in_unit s" and r: "Add v s = Inr s'"
  shows "mean_in_unit s'"
proof -
  define c where "c = real (unat (m_count s + 1))"
  define m where "m = m_mean s"
  from r have nz: "m_count s + 1 \<noteq> 0" and s': "m_mean s' = m + (v - m) / c"
    by (auto simp: Add_def Let_def c_def m_def word_greater_zero_iff split: if_splits)
  from nz have "unat (m_count s + 1) \<noteq> 0"
    by (simp add: unat_eq_0)
  then have "Suc 0 \<le> unat (m_count s + 1)" by simp
  then have "real (Suc 0) \<le> real (unat (m_count s + 1))" by (rule of_nat_mono)
  then have c1: "1 \<le> c" unfolding c_def by simp
  from s have m: "0 \<le> m" "m \<le> 1" by (simp_all add: mean_in_unit_def m_def)
  have c0: "0 < c" using c1 by simp
  have eq: "m + (v - m) / c = (m * (c - 1) + v) / c"
    using c0 by (simp add: field_simps)
  have "0 \<le> m * (c - 1)" using m c1 by simp
  then have num_lo: "0 \<le> m * (c - 1) + v" using v by simp
  have "m * (c - 1) \<le> 1 * (c - 1)" using m c1 by (intro mult_right_mono) simp_all
  then have num_hi: "m * (c - 1) + v \<le> c" using v by simp
  have lo: "0 \<le> m + (v - m) / c"
    unfolding eq using num_lo c0 by (rule divide_nonneg_pos)
  have hi: "m + (v - m) / c \<le> 1"
    unfolding eq using num_hi c0 by (simp add: divide_le_eq_1)
  from lo hi s' show ?thesis by (simp add: mean_in_unit_def)
qed

lemma do_stat_call_mean_in_unit:
  "stat_call_value_ok c \<Longrightarrow> mean_in_unit s \<Longrightarrow> do_stat_call c s = Inr s' \<Longrightarrow> mean_in_unit s'"
  by (cases c) (auto simp: Initialize_def Clear_stat_def mean_in_unit_def[of "\<lparr>m_count = _, m_mean = _\<rparr>"]
      intro: Add_mean_in_unit)

lemma do_stat_calls_mean_in_unit:
  "\<forall>c \<in> set cs. stat_call_value_ok c \<Longrightarrow> mean_in_unit s \<Longrightarrow> do_stat_calls cs s = Inr s'
    \<Longrightarrow> mean_in_unit s'"
proof (induction cs arbitrary: s)
  case Nil
  then show ?case by simp
next
  case (Cons c cs)
  from Cons.prems(3) obtain s1 where s1: "do_stat_call c s = Inr s1" "do_stat_calls cs s1 = Inr s'"
    by (auto split: sum.splits)
  from Cons.prems(1,2) s1(1) have "mean_in_unit s1"
    by (auto intro: do_stat_call_mean_in_unit)
  with Cons.IH Cons.prems(1) s1(2) show ?case by simp
qed

lemma do_stat_calls_fails:
  "do_stat_calls cs s = Inl e \<Longrightarrow> e = AssertionFailed"
proof (induction cs arbitrary: s)
  case Nil
  then show ?case by simp
next
  case (Cons c cs)
  then show ?case
    by (cases c) (auto split: sum.splits simp: Add_fails_iff)
qed

text \<open>
  Claim C7.  A statistics object is created cleared; afterwards it receives any history of
  \<open>Add\<close>, \<open>Initialize\<close> and \<open>Clear\<close> calls whose values lie in \<open>[0,1]\<close>.  With exact
  arithmetic the history either runs into the overflow assertion of \<open>Add\<close> (the counter
  wraps, the only failure there is), or it ends in a state whose stored mean lies in
  \<open>[0,1]\<close>.
\<close>

theorem C7_mean_stays_in_unit_interval:
  assumes "\<forall>c \<in> set cs. stat_call_value_ok c"
  shows "case do_stat_calls cs (Clear_stat :: 'c::len SgStatisticsBase) of
           Inl e \<Rightarrow> e = AssertionFailed
         | Inr s \<Rightarrow> 0 \<le> m_mean s \<and> m_mean s \<le> 1"
proof (cases "do_stat_calls cs (Clear_stat :: 'c SgStatisticsBase)")
  case (Inl e)
  then show ?thesis by (simp add: do_stat_calls_fails)
next
  case (Inr s)
  have "mean_in_unit (Clear_stat :: 'c SgStatisticsBase)"
    by (simp add: mean_in_unit_def Clear_stat_def)
  then have "mean_in_unit s"
    by (rule do_stat_calls_mean_in_unit [OF assms _ Inr])
  with Inr show ?thesis by (simp add: mean_in_unit_def)
qed

theorem C7_mean_stays_in_unit_interval_witness:
  "list_all stat_call_value_ok
     [CallAdd 1, CallAdd 0, CallInitialize (1/2) 3, CallAdd 1, CallAdd (1/4)]
   \<and> do_stat_calls [CallAdd 1, CallAdd 0, CallInitialize (1/2) 3, CallAdd 1, CallAdd (1/4)]
        (Clear_stat :: 64 SgStatisticsBase) = Inr \<lparr>m_count = 5, m_mean = 11/20\<rparr>
   \<and> (0::real) \<le> 11/20 \<and> (11/20::real) \<le> 1"
  using C7_mean_stays_in_unit_interval
    [of "[CallAdd 1, CallAdd 0, CallInitialize (1/2) 3, CallAdd 1, CallAdd (1/4)]", where ?'c = 64]
  by (simp add: Add_def Initialize_def Clear_stat_def)

section \<open>Reading, writing and appending: basic facts\<close>

lemma NuAllocators_modify: "NuAllocators (modify r f t) = NuAllocators t"
  by (cases r) (simp_all add: NuAllocators_def)

lemma m_maxNodes_modify: "m_maxNodes (modify r f t) = m_maxNodes t"
  by (cases r) simp_all

lemma length_alloc_nodes_modify:
  "length (alloc_nodes (modify r f t) a) = length (alloc_nodes t a)"
proof (cases r)
  case (Slot b i)
  show ?thesis
  proof (cases "a = b \<and> b < length (m_allocators t)")
    case True
    then show ?thesis using Slot by (simp add: alloc_nodes_def)
  next
    case False
    then show ?thesis using Slot
      by (cases "a = b") (simp_all add: alloc_nodes_def list_update_beyond)
  qed
qed (simp_all add: alloc_nodes_def)

lemma capacity_modify:
  "capacity (m_allocators (modify r f t) ! a) = capacity (m_allocators t ! a)"
proof (cases r)
  case (Slot b i)
  show ?thesis
  proof (cases "a = b \<and> b < length (m_allocators t)")
    case True
    then show ?thesis using Slot by simp
  next
    case False
    then show ?thesis using Slot
      by (cases "a = b") (simp_all add: list_update_beyond)
  qed
qed simp_all

lemma HasCapacity_modify:
  "HasCapacity (m_allocators (modify r f t) ! a) n = HasCapacity (m_allocators t ! a) n"
  using length_alloc_nodes_modify [of r f t a] capacity_modify [of r f t a]
  by (simp add: HasCapacity_def alloc_nodes_def)

lemma Contains_modify: "Contains (modify r f t) r' = Contains t r'"
  by (cases r') (simp_all add: NuAllocators_modify length_alloc_nodes_modify)

lemma Contains_deref: "Contains t r = (deref t r \<noteq> None)"
  by (cases r) simp_all

lemma alloc_nodes_modify_other:
  "r \<noteq> Slot a i \<Longrightarrow> alloc_nodes (modify r f t) a ! i = alloc_nodes t a ! i"
proof (cases r)
  case (Slot b j)
  assume ne: "r \<noteq> Slot a i"
  show ?thesis
  proof (cases "a = b \<and> b < length (m_allocators t)")
    case True
    with ne Slot have "i \<noteq> j" by simp
    with True Slot show ?thesis by (simp add: alloc_nodes_def)
  next
    case False
    then show ?thesis using Slot
      by (cases "a = b") (simp_all add: alloc_nodes_def list_update_beyond)
  qed
qed (simp_all add: alloc_nodes_def)

lemma deref_modify_other: "r' \<noteq> r \<Longrightarrow> deref (modify r f t) r' = deref t r'"
proof (cases r')
  case (Slot a i)
  assume "r' \<noteq> r"
  with Slot have "r \<noteq> Slot a i" by simp
  then show ?thesis
    using Slot by (simp add: NuAllocators_modify length_alloc_nodes_modify alloc_nodes_modify_other)
next
  case RootRef
  assume "r' \<noteq> r"
  with RootRef show ?thesis by (cases r) simp_all
qed simp

lemma deref_modify_same: "deref (modify r f t) r = map_option f (deref t r)"
proof (cases r)
  case (Slot a i)
  show ?thesis
  proof (cases "a < NuAllocators t \<and> i < length (alloc_nodes t a)")
    case True
    then show ?thesis using Slot
      by (simp add: NuAllocators_def alloc_nodes_def)
  next
    case False
    with Slot have "\<not> Contains t r" by simp
    then have "\<not> Contains (modify r f t) r" by (simp add: Contains_modify)
    then have "deref (modify r f t) r = None" by (simp add: Contains_deref)
    moreover from \<open>\<not> Contains t r\<close> have "deref t r = None" by (simp add: Contains_deref)
    ultimately show ?thesis by simp
  qed
qed simp_all

lemma deref_modify:
  "deref (modify r f t) r' = (if r' = r then map_option f (deref t r) else deref t r')"
  by (simp add: deref_modify_same deref_modify_other)

lemma NuAllocators_push_back: "NuAllocators (push_back a n t) = NuAllocators t"
  by (simp add: push_back_def NuAllocators_def)

lemma m_maxNodes_push_back: "m_maxNodes (push_back a n t) = m_maxNodes t"
  by (simp add: push_back_def)

lemma m_root_push_back: "m_root (push_back a n t) = m_root t"
  by (simp add: push_back_def)

lemma alloc_nodes_push_back:
  "a < NuAllocators t \<Longrightarrow>
   alloc_nodes (push_back a n t) b = (if b = a then alloc_nodes t a @ [n] else alloc_nodes t b)"
  by (simp add: push_back_def alloc_nodes_def NuAllocators_def)

lemma capacity_push_back:
  "capacity (m_allocators (push_back a n t) ! b) = capacity (m_allocators t ! b)"
  by (cases "a < length (m_allocators t)")
     (simp_all add: push_back_def nth_list_update list_update_beyond)

lemma deref_push_back:
  "a < NuAllocators t \<Longrightarrow>
   deref (push_back a n t) r =
     (if r = Slot a (length (alloc_nodes t a)) then Some n else deref t r)"
proof (cases r)
  case (Slot b i)
  assume a: "a < NuAllocators t"
  show ?thesis
  proof (cases "b = a")
    case True
    with a Slot show ?thesis
      by (auto simp: NuAllocators_push_back alloc_nodes_push_back nth_append)
  next
    case False
    with a Slot show ?thesis
      by (simp add: NuAllocators_push_back alloc_nodes_push_back)
  qed
qed (simp_all add: m_root_push_back)

lemma NuNodes_loop_sum: "NuNodes_loop als k = k + sum_list (map NuNodes_alloc als)"
  by (induction als arbitrary: k) simp_all

lemma NuNodes_sum: "NuNodes t = 1 + sum_list (map NuNodes_alloc (m_allocators t))"
  by (simp add: NuNodes_def NuNodes_loop_sum)

lemma NuNodes_push_back:
  assumes "a < NuAllocators t"
  shows "NuNodes (push_back a n t) = Suc (NuNodes t)"
proof -
  let ?als = "m_allocators t"
  let ?al = "(?als ! a)\<lparr>m_nodes := alloc_nodes t a @ [n]\<rparr>"
  from assms have a: "a < length (map NuNodes_alloc ?als)" by (simp add: NuAllocators_def)
  have "sum_list (map NuNodes_alloc (?als[a := ?al]))
          = sum_list ((map NuNodes_alloc ?als)[a := NuNodes_alloc ?al])"
    by (simp add: map_update)
  also have "\<dots> = sum_list (map NuNodes_alloc ?als) + NuNodes_alloc ?al
                    - map NuNodes_alloc ?als ! a"
    using a by (rule sum_list_update)
  also have "\<dots> = Suc (sum_list (map NuNodes_alloc ?als))"
    using a by (simp add: NuNodes_alloc_def alloc_nodes_def)
  finally show ?thesis by (simp add: NuNodes_sum push_back_def)
qed

lemma NuNodes_modify: "NuNodes (modify r f t) = NuNodes t"
proof -
  have "map NuNodes_alloc (m_allocators (modify r f t)) = map NuNodes_alloc (m_allocators t)"
  proof (rule nth_equalityI)
    show "length (map NuNodes_alloc (m_allocators (modify r f t)))
            = length (map NuNodes_alloc (m_allocators t))"
      using NuAllocators_modify [of r f t] by (simp add: NuAllocators_def)
  next
    fix a assume "a < length (map NuNodes_alloc (m_allocators (modify r f t)))"
    then have "a < length (m_allocators (modify r f t))" "a < length (m_allocators t)"
      using NuAllocators_modify [of r f t] by (simp_all add: NuAllocators_def)
    then show "map NuNodes_alloc (m_allocators (modify r f t)) ! a
                 = map NuNodes_alloc (m_allocators t) ! a"
      using length_alloc_nodes_modify [of r f t a]
      by (simp add: NuNodes_alloc_def alloc_nodes_def)
  qed
  then show ?thesis by (simp add: NuNodes_sum)
qed

lemma push_back_append_nodes: "push_back a n t = append_nodes a [n] t"
  by (simp add: push_back_def append_nodes_def)

lemma NuAllocators_append_nodes: "NuAllocators (append_nodes a ns t) = NuAllocators t"
  by (simp add: append_nodes_def NuAllocators_def)

lemma m_maxNodes_append_nodes: "m_maxNodes (append_nodes a ns t) = m_maxNodes t"
  by (simp add: append_nodes_def)

lemma m_root_append_nodes: "m_root (append_nodes a ns t) = m_root t"
  by (simp add: append_nodes_def)

lemma alloc_nodes_append_nodes:
  "a < NuAllocators t \<Longrightarrow>
   alloc_nodes (append_nodes a ns t) b = (if b = a then alloc_nodes t a @ ns else alloc_nodes t b)"
  by (simp add: append_nodes_def alloc_nodes_def NuAllocators_def)

lemma capacity_append_nodes:
  "capacity (m_allocators (append_nodes a ns t) ! b) = capacity (m_allocators t ! b)"
  by (cases "a < length (m_allocators t)")
     (simp_all add: append_nodes_def nth_list_update list_update_beyond)

lemma append_nodes_Nil: "a < NuAllocators t \<Longrightarrow> append_nodes a [] t = t"
  by (simp add: append_nodes_def alloc_nodes_def NuAllocators_def list_update_same_conv)

lemma append_nodes_append:
  "a < NuAllocators t \<Longrightarrow>
   append_nodes a ns (append_nodes a ms t) = append_nodes a (ms @ ns) t"
  by (simp add: append_nodes_def alloc_nodes_def NuAllocators_def)

lemma deref_append_nodes_old:
  "a < NuAllocators t \<Longrightarrow> Contains t r \<Longrightarrow> deref (append_nodes a ns t) r = deref t r"
  by (cases r)
     (auto simp: NuAllocators_append_nodes alloc_nodes_append_nodes nth_append m_root_append_nodes)

lemma deref_append_nodes_new:
  "a < NuAllocators t \<Longrightarrow> i < length ns \<Longrightarrow>
   deref (append_nodes a ns t) (Slot a (length (alloc_nodes t a) + i)) = Some (ns ! i)"
  by (simp add: NuAllocators_append_nodes alloc_nodes_append_nodes nth_append)

lemma Contains_append_nodes:
  "a < NuAllocators t \<Longrightarrow>
   Contains (append_nodes a ns t) r =
     (Contains t r \<or> (\<exists>i < length ns. r = Slot a (length (alloc_nodes t a) + i)))"
proof (cases r)
  case (Slot b j)
  assume a: "a < NuAllocators t"
  show ?thesis
  proof (cases "b = a")
    case True
    have "(j < length (alloc_nodes t a) + length ns) =
          (j < length (alloc_nodes t a) \<or> (\<exists>i<length ns. j = length (alloc_nodes t a) + i))"
    proof
      assume lt: "j < length (alloc_nodes t a) + length ns"
      show "j < length (alloc_nodes t a) \<or> (\<exists>i<length ns. j = length (alloc_nodes t a) + i)"
      proof (cases "j < length (alloc_nodes t a)")
        case False
        then have "j = length (alloc_nodes t a) + (j - length (alloc_nodes t a))" by simp
        moreover from False lt have "j - length (alloc_nodes t a) < length ns" by arith
        ultimately show ?thesis by blast
      qed simp
    next
      assume "j < length (alloc_nodes t a) \<or> (\<exists>i<length ns. j = length (alloc_nodes t a) + i)"
      then show "j < length (alloc_nodes t a) + length ns" by auto
    qed
    with a True Slot show ?thesis
      by (simp add: NuAllocators_append_nodes alloc_nodes_append_nodes)
  next
    case False
    with a Slot show ?thesis
      by (auto simp: NuAllocators_append_nodes alloc_nodes_append_nodes)
  qed
qed simp_all

lemma NuNodes_append_nodes:
  assumes "a < NuAllocators t"
  shows "NuNodes (append_nodes a ns t) = NuNodes t + length ns"
proof -
  let ?als = "m_allocators t"
  let ?al = "(?als ! a)\<lparr>m_nodes := alloc_nodes t a @ ns\<rparr>"
  from assms have a: "a < length (map NuNodes_alloc ?als)" by (simp add: NuAllocators_def)
  have "sum_list (map NuNodes_alloc (?als[a := ?al]))
          = sum_list ((map NuNodes_alloc ?als)[a := NuNodes_alloc ?al])"
    by (simp add: map_update)
  also have "\<dots> = sum_list (map NuNodes_alloc ?als) + NuNodes_alloc ?al
                    - map NuNodes_alloc ?als ! a"
    using a by (rule sum_list_update)
  also have "\<dots> = sum_list (map NuNodes_alloc ?als) + length ns"
    using a by (simp add: NuNodes_alloc_def alloc_nodes_def)
  finally show ?thesis by (simp add: NuNodes_sum append_nodes_def)
qed

lemma CreateChildren_loop_append:
  "a < NuAllocators t \<Longrightarrow> CreateChildren_loop a mvs t = append_nodes a (map new_SgUctNode mvs) t"
proof (induction mvs arbitrary: t)
  case Nil
  then show ?case by (simp add: append_nodes_Nil)
next
  case (Cons mv mvs)
  from Cons.prems have "a < NuAllocators (push_back a (new_SgUctNode mv) t)"
    by (simp add: NuAllocators_push_back)
  with Cons.IH Cons.prems show ?case
    by (simp add: push_back_append_nodes append_nodes_append)
qed

section \<open>SetMaxNodes\<close>

lemma NuAllocators_Clear: "NuAllocators (Clear t) = NuAllocators t"
  by (simp add: Clear_def NuAllocators_def)

lemma alloc_nodes_Clear: "a < NuAllocators t \<Longrightarrow> alloc_nodes (Clear t) a = []"
  by (simp add: Clear_def alloc_nodes_def NuAllocators_def Clear_alloc_def)

lemma capacity_Clear:
  "a < NuAllocators t \<Longrightarrow> capacity (m_allocators (Clear t) ! a) = capacity (m_allocators t ! a)"
  by (simp add: Clear_def NuAllocators_def Clear_alloc_def)

lemma m_root_Clear: "m_root (Clear t) = new_SgUctNode SG_NULLMOVE"
  by (simp add: Clear_def)

lemma m_maxNodes_Clear: "m_maxNodes (Clear t) = m_maxNodes t"
  by (simp add: Clear_def)

lemma NuNodes_Clear: "NuNodes (Clear t) = 1"
proof -
  have "sum_list (map NuNodes_alloc (map Clear_alloc als)) = 0" for als
    by (induction als) (simp_all add: NuNodes_alloc_def Clear_alloc_def)
  then show ?thesis by (simp add: NuNodes_sum Clear_def)
qed

lemma Clear_Clear: "Clear (Clear t) = Clear t"
  by (simp add: Clear_def Clear_alloc_def comp_def)

text \<open>
  Claim C6.  With at least one allocator registered, \<open>SetMaxNodes N\<close> succeeds; the tree is
  cleared, so \<open>NuNodes\<close> is 1 (the root, a new null-move node, and every allocator empty);
  every allocator has capacity \<open>N div NuAllocators\<close>; and the number of nodes that can
  still be allocated, the sum over the allocators of capacity minus size, is the sum of
  the capacities, \<open>NuAllocators * (N div NuAllocators)\<close>.
\<close>

theorem C6_SetMaxNodes_clears_and_splits_budget:
  assumes "0 < NuAllocators t"
  shows "\<exists>t'. SetMaxNodes N t = Inr t'
           \<and> NuNodes t' = 1
           \<and> m_root t' = new_SgUctNode SG_NULLMOVE
           \<and> m_maxNodes t' = N
           \<and> NuAllocators t' = NuAllocators t
           \<and> (\<forall>al \<in> set (m_allocators t').
                 m_nodes al = [] \<and> capacity al = N div NuAllocators t)
           \<and> sum_list (map (\<lambda>al. capacity al - NuNodes_alloc al) (m_allocators t'))
               = sum_list (map capacity (m_allocators t'))
           \<and> sum_list (map capacity (m_allocators t')) = NuAllocators t * (N div NuAllocators t)"
proof -
  define c where "c = N div NuAllocators t"
  define t' where
    "t' = (Clear t)\<lparr>m_maxNodes := N,
                     m_allocators := map (SetMaxNodes_alloc c) (m_allocators (Clear t))\<rparr>"
  have r: "SetMaxNodes N t = Inr t'"
    using assms by (simp add: SetMaxNodes_def Let_def NuAllocators_Clear t'_def c_def)
  have als: "m_allocators t' = map (\<lambda>al. al\<lparr>m_nodes := [], capacity := c\<rparr>) (m_allocators t)"
    by (simp add: t'_def Clear_def SetMaxNodes_alloc_def Clear_alloc_def comp_def)
  have all: "\<forall>al \<in> set (m_allocators t'). m_nodes al = [] \<and> capacity al = c"
    by (auto simp: als)
  have n: "NuAllocators t' = NuAllocators t"
    by (simp add: als NuAllocators_def)
  have s0: "sum_list (map NuNodes_alloc (m_allocators t')) = 0"
    using all by (simp add: NuNodes_alloc_def)
  have s1: "sum_list (map capacity (m_allocators t')) = NuAllocators t * c"
    using all n by (simp add: sum_list_triv NuAllocators_def cong: map_cong)
  have s2: "sum_list (map (\<lambda>al. capacity al - NuNodes_alloc al) (m_allocators t'))
              = sum_list (map capacity (m_allocators t'))"
    using all by (simp add: NuNodes_alloc_def cong: map_cong)
  have "NuNodes t' = 1" using s0 by (simp add: NuNodes_sum)
  moreover have "m_root t' = new_SgUctNode SG_NULLMOVE" by (simp add: t'_def Clear_def)
  moreover have "m_maxNodes t' = N" by (simp add: t'_def)
  ultimately show ?thesis using r n all s1 s2 unfolding c_def by blast
qed

theorem C6_SetMaxNodes_clears_and_splits_budget_witness:
  "0 < NuAllocators ex_tree
   \<and> SetMaxNodes 7 ex_tree =
       Inr \<lparr>m_maxNodes = 7, m_root = new_SgUctNode SG_NULLMOVE,
            m_allocators = [\<lparr>m_nodes = [], capacity = 3\<rparr>, \<lparr>m_nodes = [], capacity = 3\<rparr>]\<rparr>
   \<and> NuNodes \<lparr>m_maxNodes = 7, m_root = new_SgUctNode SG_NULLMOVE,
            m_allocators = [\<lparr>m_nodes = [], capacity = 3\<rparr>, \<lparr>m_nodes = [], capacity = 3\<rparr>]\<rparr> = 1"
  using C6_SetMaxNodes_clears_and_splits_budget [of ex_tree 7]
  by (simp add: ex_tree_def NuAllocators_def SetMaxNodes_def Clear_def Clear_alloc_def
      SetMaxNodes_alloc_def NuNodes_def NuNodes_alloc_def numeral_2_eq_2 [symmetric])

section \<open>CreateChildren\<close>

text \<open>
  Claim C2, amended.  \<open>CreateChildren\<close> has four preconditions, each an \<open>SG_ASSERT\<close>: the
  node is in the tree, \<open>moves\<close> is not empty, the allocator has capacity for
  \<open>length moves\<close> more nodes, and the node has no children yet unless the tree has more
  than one allocator.  Under them the call succeeds: it appends \<open>length moves\<close> nodes at
  the end of that allocator, the \<open>i\<close>-th a new node for \<open>moves ! i\<close> (zeroed statistics,
  no children); the node's first child is the first appended node and its number of
  children is \<open>length moves\<close>; its other fields, every other node and the sizes of the
  other allocators are as before.
\<close>

theorem C2_CreateChildren_appends_children:
  assumes node: "deref t node = Some nd"
    and a: "allocatorId < NuAllocators t"
    and cap: "HasCapacity (m_allocators t ! allocatorId) (length moves)"
    and moves: "moves \<noteq> []"
    and once: "1 < NuAllocators t \<or> \<not> HasChildren nd"
  shows "\<exists>t'. CreateChildren allocatorId node moves t = Inr t'
           \<and> NuAllocators t' = NuAllocators t
           \<and> length (alloc_nodes t' allocatorId)
               = length (alloc_nodes t allocatorId) + length moves
           \<and> (\<forall>i < length moves.
                 deref t' (Slot allocatorId (length (alloc_nodes t allocatorId) + i))
                   = Some (new_SgUctNode (moves ! i)))
           \<and> deref t' node
               = Some (nd\<lparr>first_child := Slot allocatorId (length (alloc_nodes t allocatorId)),
                          num_children := length moves\<rparr>)
           \<and> (\<forall>r. r \<noteq> node \<and> Contains t r \<longrightarrow> deref t' r = deref t r)
           \<and> (\<forall>b. b \<noteq> allocatorId \<longrightarrow>
                 length (alloc_nodes t' b) = length (alloc_nodes t b))
           \<and> NuNodes t' = NuNodes t + length moves"
proof -
  let ?old = "length (alloc_nodes t allocatorId)"
  let ?t1 = "append_nodes allocatorId (map new_SgUctNode moves) t"
  let ?t2 = "modify node (SetFirstChild (Slot allocatorId ?old)) ?t1"
  let ?t3 = "modify node (SetNuChildren (length moves)) ?t2"
  have r: "CreateChildren allocatorId node moves t = Inr ?t3"
    using assms by (simp add: CreateChildren_def Let_def CreateChildren_loop_append)
  from node have cont: "Contains t node" by (simp add: Contains_deref)
  have d1: "deref ?t1 r = deref t r" if "Contains t r" for r
    using a that by (rule deref_append_nodes_old)
  have n3: "NuAllocators ?t3 = NuAllocators t"
    by (simp add: NuAllocators_modify NuAllocators_append_nodes)
  have len: "length (alloc_nodes ?t3 b) = length (alloc_nodes ?t1 b)" for b
    by (simp add: length_alloc_nodes_modify)
  have l3: "length (alloc_nodes ?t3 allocatorId) = ?old + length moves"
    using a by (simp add: len alloc_nodes_append_nodes)
  have node3: "deref ?t3 node
                 = Some (nd\<lparr>first_child := Slot allocatorId ?old, num_children := length moves\<rparr>)"
    using node d1 [OF cont] by (simp add: deref_modify SetFirstChild_def SetNuChildren_def)
  have other: "deref ?t3 r = deref ?t1 r" if "r \<noteq> node" for r
    using that by (simp add: deref_modify)
  have new: "deref ?t3 (Slot allocatorId (?old + i)) = Some (new_SgUctNode (moves ! i))"
    if "i < length moves" for i
  proof -
    from cont have "node \<noteq> Slot allocatorId (?old + i)" by auto
    then have "deref ?t3 (Slot allocatorId (?old + i)) = deref ?t1 (Slot allocatorId (?old + i))"
      using other by metis
    also have "\<dots> = Some (map new_SgUctNode moves ! i)"
      by (rule deref_append_nodes_new) (use a that in simp_all)
    finally show ?thesis using that by simp
  qed
  have old: "deref ?t3 r = deref t r" if "r \<noteq> node \<and> Contains t r" for r
    using that other d1 by simp
  have others: "length (alloc_nodes ?t3 b) = length (alloc_nodes t b)" if "b \<noteq> allocatorId" for b
    using a that by (simp add: len alloc_nodes_append_nodes)
  have nn: "NuNodes ?t3 = NuNodes t + length moves"
    using a by (simp add: NuNodes_modify NuNodes_append_nodes)
  from r n3 l3 new node3 old others nn show ?thesis by blast
qed

theorem C2_CreateChildren_appends_children_witness:
  "deref ex_tree (Slot 0 1) = Some (ex_node 4 4 (1/4) NullRef 0)
   \<and> 1 < NuAllocators ex_tree
   \<and> HasCapacity (m_allocators ex_tree ! 1) (length [7, 8 :: SgMove])
   \<and> [7, 8 :: SgMove] \<noteq> []
   \<and> CreateChildren 1 (Slot 0 1) [7, 8] ex_tree =
       Inr \<lparr>m_maxNodes = 8,
            m_root = ex_node SG_NULLMOVE 10 (1/2) (Slot 0 0) 2,
            m_allocators =
              [\<lparr>m_nodes = [ex_node 3 6 (1/2) (Slot 1 0) 1, ex_node 4 4 (1/4) (Slot 1 1) 2],
                capacity = 4\<rparr>,
               \<lparr>m_nodes = [ex_node 5 2 1 NullRef 0, new_SgUctNode 7, new_SgUctNode 8],
                capacity = 4\<rparr>]\<rparr>"
  using C2_CreateChildren_appends_children
    [of ex_tree "Slot 0 1" "ex_node 4 4 (1/4) NullRef 0" 1 "[7, 8]"]
  by (simp add: ex_tree_def ex_node_def NuAllocators_def alloc_nodes_def HasCapacity_def
      HasChildren_def CreateChildren_def push_back_def SetFirstChild_def SetNuChildren_def
      new_SgUctNode_def Let_def)

text \<open>
  Claim C2 as stated names two preconditions only.  On a tree with a single allocator whose
  root already has children, the allocator has capacity and \<open>moves\<close> is not empty, yet
  the call runs into \<open>SG_ASSERT(NuAllocators() > 1 || ! node.HasChildren())\<close>.
\<close>

theorem C2_CreateChildren_counterexample:
  "Contains ex_single RootRef
   \<and> HasCapacity (m_allocators ex_single ! 0) (length [7 :: SgMove])
   \<and> [7 :: SgMove] \<noteq> []
   \<and> CreateChildren 0 RootRef [7] ex_single = Inl AssertionFailed"
  by (simp add: ex_single_def ex_node_def NuAllocators_def HasCapacity_def HasChildren_def
      CreateChildren_def Let_def)

text \<open>
  From here on the tree is used through the facts above; the defining equations of
  \<open>deref\<close>, \<open>Contains\<close> and \<open>modify\<close> are no longer unfolded automatically.
\<close>

declare deref.simps [simp del] Contains.simps [simp del] modify.simps [simp del]

lemma Contains_RootRef: "Contains t RootRef"
  by (simp add: Contains.simps)

lemma not_Contains_NullRef: "\<not> Contains t NullRef"
  by (simp add: Contains.simps)

lemma Contains_Slot: "Contains t (Slot a i) = (a < NuAllocators t \<and> i < length (alloc_nodes t a))"
  by (simp add: Contains.simps)

lemma deref_RootRef: "deref t RootRef = Some (m_root t)"
  by (simp add: deref.simps)

section \<open>ApplyFilter\<close>

lemma those_map_Some_iff:
  "(those (map f xs) = Some ys) = (length ys = length xs \<and> (\<forall>i < length xs. f (xs ! i) = Some (ys ! i)))"
proof (induction xs arbitrary: ys)
  case Nil
  then show ?case by auto
next
  case (Cons x xs)
  show ?case
  proof (cases "f x")
    case None
    then show ?thesis by force
  next
    case (Some y)
    show ?thesis
    proof (cases ys)
      case Nil
      then show ?thesis using Some by (auto split: option.splits)
    next
      case (Cons y' ys')
      have "(\<forall>i<Suc (length xs). f ((x # xs) ! i) = Some ((y' # ys') ! i))
            = (f x = Some y' \<and> (\<forall>i<length xs. f (xs ! i) = Some (ys' ! i)))"
        by (auto simp: nth_Cons split: nat.splits)
      then show ?thesis using Some Cons Cons.IH [of ys']
        by (auto split: option.splits)
    qed
  qed
qed

lemma those_map_SomeD:
  "those (map f xs) = Some ys \<Longrightarrow> x \<in> set xs \<Longrightarrow> \<exists>y. f x = Some y"
  by (auto simp: those_map_Some_iff in_set_conv_nth)

lemma those_map_Some_map:
  "those (map f xs) = Some ys \<Longrightarrow> map (\<lambda>x. the (f x)) xs = ys"
  by (auto simp: those_map_Some_iff intro!: nth_equalityI)

lemma ApplyFilter_loop_append:
  assumes "a < NuAllocators t" and "\<forall>c \<in> set cs. Contains t c"
  shows "ApplyFilter_loop a flt cs t k =
           Inr (append_nodes a
                  (map new_SgUctNode
                     (filter (\<lambda>m. m \<notin> set flt) (map (\<lambda>c. move (the (deref t c))) cs))) t,
                k + length (filter (\<lambda>m. m \<notin> set flt) (map (\<lambda>c. move (the (deref t c))) cs)))"
  using assms
proof (induction cs arbitrary: t k)
  case Nil
  then show ?case by (simp add: append_nodes_Nil)
next
  case (Cons c cs)
  from Cons.prems obtain cur where cur: "deref t c = Some cur"
    by (auto simp: Contains_deref)
  show ?case
  proof (cases "move cur \<in> set flt")
    case True
    with cur Cons show ?thesis by simp
  next
    case False
    let ?t1 = "append_nodes a [new_SgUctNode (move cur)] t"
    have a1: "a < NuAllocators ?t1"
      using Cons.prems by (simp add: NuAllocators_append_nodes)
    have same: "deref ?t1 c' = deref t c'" if "c' \<in> set cs" for c'
      using Cons.prems that by (simp add: deref_append_nodes_old)
    then have c1: "\<forall>c' \<in> set cs. Contains ?t1 c'"
      using Cons.prems by (simp add: Contains_deref)
    have m: "map (\<lambda>c. move (the (deref ?t1 c))) cs = map (\<lambda>c. move (the (deref t c))) cs"
      using same by simp
    have "ApplyFilter_loop a flt (c # cs) t k = ApplyFilter_loop a flt cs ?t1 (k + 1)"
      using cur False by (simp add: Let_def push_back_append_nodes)
    also note Cons.IH [OF a1 c1, of "k + 1"]
    finally show ?thesis
      using cur False Cons.prems(1) by (simp add: m append_nodes_append)
  qed
qed

lemma publish_children_node:
  assumes "deref t node = Some nd" and "a < NuAllocators t"
  shows "deref (publish_children node a ns t) node
           = Some (nd\<lparr>first_child := Slot a (length (alloc_nodes t a)), num_children := length ns\<rparr>)"
proof -
  from assms(1) have "Contains t node" by (simp add: Contains_deref)
  then have "deref (append_nodes a ns t) node = Some nd"
    using assms by (simp add: deref_append_nodes_old)
  then show ?thesis
    by (simp add: publish_children_def deref_modify SetFirstChild_def SetNuChildren_def)
qed

lemma publish_children_old:
  assumes "a < NuAllocators t" and "Contains t r" and "r \<noteq> node"
  shows "deref (publish_children node a ns t) r = deref t r"
  using assms by (simp add: publish_children_def deref_modify deref_append_nodes_old)

lemma publish_children_new:
  assumes "a < NuAllocators t" and "Contains t node" and "i < length ns"
  shows "deref (publish_children node a ns t) (Slot a (length (alloc_nodes t a) + i)) = Some (ns ! i)"
proof -
  from assms(2) have "node \<noteq> Slot a (length (alloc_nodes t a) + i)"
    by (auto simp: Contains_Slot)
  then have "deref (publish_children node a ns t) (Slot a (length (alloc_nodes t a) + i))
               = deref (append_nodes a ns t) (Slot a (length (alloc_nodes t a) + i))"
    by (simp add: publish_children_def deref_modify)
  also have "\<dots> = Some (ns ! i)"
    using assms(1,3) by (rule deref_append_nodes_new)
  finally show ?thesis .
qed

lemma publish_children_sizes:
  assumes "a < NuAllocators t"
  shows "NuAllocators (publish_children node a ns t) = NuAllocators t"
    and "length (alloc_nodes (publish_children node a ns t) b)
           = (if b = a then length (alloc_nodes t a) + length ns else length (alloc_nodes t b))"
    and "capacity (m_allocators (publish_children node a ns t) ! b) = capacity (m_allocators t ! b)"
    and "NuNodes (publish_children node a ns t) = NuNodes t + length ns"
    and "m_maxNodes (publish_children node a ns t) = m_maxNodes t"
  using assms
  by (simp_all add: publish_children_def NuAllocators_modify NuAllocators_append_nodes
      length_alloc_nodes_modify alloc_nodes_append_nodes capacity_modify capacity_append_nodes
      NuNodes_modify NuNodes_append_nodes m_maxNodes_modify m_maxNodes_append_nodes)

lemma child_refs_Slot:
  "first_child nd = Slot a i \<Longrightarrow> child_refs nd = map (\<lambda>j. Slot a (i + j)) [0..<num_children nd]"
  by (simp add: child_refs_def)

lemma publish_children_children_of:
  assumes "deref t node = Some nd" and "a < NuAllocators t"
  shows "children_of (publish_children node a ns t) node = Some ns"
proof -
  let ?t' = "publish_children node a ns t"
  let ?nd' = "nd\<lparr>first_child := Slot a (length (alloc_nodes t a)), num_children := length ns\<rparr>"
  from assms(1) have cont: "Contains t node" by (simp add: Contains_deref)
  have refs: "child_refs ?nd' = map (\<lambda>j. Slot a (length (alloc_nodes t a) + j)) [0..<length ns]"
    by (simp add: child_refs_def)
  have "those (map (deref ?t') (child_refs ?nd')) = Some ns"
    unfolding those_map_Some_iff refs
    using publish_children_new [OF assms(2) cont] by simp
  then show ?thesis
    using publish_children_node [OF assms] by (simp add: children_of_def)
qed

lemma children_of_Contains:
  assumes "children_of t node = Some chs" and "deref t node = Some nd"
  shows "\<forall>c \<in> set (child_refs nd). Contains t c"
    and "map (\<lambda>c. move (the (deref t c))) (child_refs nd) = map move chs"
proof -
  from assms have th: "those (map (deref t) (child_refs nd)) = Some chs"
    by (simp add: children_of_def)
  show "\<forall>c \<in> set (child_refs nd). Contains t c"
    using those_map_SomeD [OF th] by (auto simp: Contains_deref)
  from those_map_Some_map [OF th] have "map (\<lambda>c. the (deref t c)) (child_refs nd) = chs" .
  then have "map move (map (\<lambda>c. the (deref t c)) (child_refs nd)) = map move chs" by simp
  then show "map (\<lambda>c. move (the (deref t c))) (child_refs nd) = map move chs"
    by (simp add: comp_def)
qed

lemma ApplyFilter_has_children:
  assumes node: "deref t node = Some nd"
    and a: "a < NuAllocators t"
    and cap: "HasCapacity (m_allocators t ! a) (num_children nd)"
    and kids: "children_of t node = Some chs"
    and has: "HasChildren nd"
  shows "ApplyFilter a node flt t
           = Inr (publish_children node a (map new_SgUctNode (surviving_moves flt chs)) t)"
proof -
  note c = children_of_Contains [OF kids node]
  show ?thesis
    using node a cap has
    by (simp add: ApplyFilter_def ApplyFilter_loop_append [OF a c(1)] c(2) Let_def
        publish_children_def surviving_moves_def)
qed

lemma ApplyFilter_no_children:
  assumes "deref t node = Some nd"
    and "a < NuAllocators t"
    and "HasCapacity (m_allocators t ! a) (num_children nd)"
    and "\<not> HasChildren nd"
  shows "ApplyFilter a node flt t = Inr t"
  using assms by (simp add: ApplyFilter_def)

lemma move_new_SgUctNode: "move (new_SgUctNode m) = m"
  by (simp add: new_SgUctNode_def)

lemma surviving_moves_new:
  "surviving_moves flt (map new_SgUctNode (surviving_moves flt chs)) = surviving_moves flt chs"
  by (simp add: surviving_moves_def comp_def move_new_SgUctNode)

lemma children_of_no_children:
  "deref t node = Some nd \<Longrightarrow> \<not> HasChildren nd \<Longrightarrow> children_of t node = Some []"
  by (simp add: children_of_def child_refs_def HasChildren_def)

lemma ApplyFilter_result:
  assumes node: "deref t node = Some nd"
    and a: "a < NuAllocators t"
    and cap: "HasCapacity (m_allocators t ! a) (num_children nd)"
    and kids: "children_of t node = Some chs"
  shows "ApplyFilter a node flt t
           = Inr (if HasChildren nd
                  then publish_children node a (map new_SgUctNode (surviving_moves flt chs)) t
                  else t)"
  using ApplyFilter_has_children [OF assms] ApplyFilter_no_children [OF node a cap]
  by simp

lemma ApplyFilter_children_of:
  assumes node: "deref t node = Some nd"
    and a: "a < NuAllocators t"
    and cap: "HasCapacity (m_allocators t ! a) (num_children nd)"
    and kids: "children_of t node = Some chs"
  shows "\<exists>t'. ApplyFilter a node flt t = Inr t'
           \<and> children_of t' node = Some (map new_SgUctNode (surviving_moves flt chs))
           \<and> NuAllocators t' = NuAllocators t"
proof (cases "HasChildren nd")
  case True
  then show ?thesis
    using ApplyFilter_result [OF assms] publish_children_children_of [OF node a]
      publish_children_sizes(1) [OF a]
    by simp
next
  case False
  with kids node have "chs = []" by (simp add: children_of_no_children)
  then show ?thesis
    using False ApplyFilter_result [OF assms] kids by (simp add: surviving_moves_def)
qed

text \<open>
  Claim C8.  Let a node of the tree have a valid child block, and let the chosen allocator
  have capacity for as many nodes as the node has children (the assertions of
  \<open>ApplyFilter\<close>).  Then \<open>ApplyFilter\<close> succeeds, and the moves of the node's children
  afterwards are the moves of the old children that are not in the filter.  If then some
  allocator has capacity for that many nodes again, a second \<open>ApplyFilter\<close> with the same
  filter succeeds too, and the node's children afterwards have the same moves, in the same
  order, as after the first application.
\<close>

theorem C8_ApplyFilter_twice_same_child_moves:
  assumes node: "deref t node = Some nd"
    and a: "a < NuAllocators t"
    and cap: "HasCapacity (m_allocators t ! a) (num_children nd)"
    and kids: "children_of t node = Some chs"
  shows "\<exists>t1 c1. ApplyFilter a node flt t = Inr t1
           \<and> children_of t1 node = Some c1
           \<and> set (map move c1) = set (map move chs) - set flt
           \<and> (\<forall>a2. a2 < NuAllocators t1 \<and> HasCapacity (m_allocators t1 ! a2) (length c1) \<longrightarrow>
                 (\<exists>t2 c2. ApplyFilter a2 node flt t1 = Inr t2
                    \<and> children_of t2 node = Some c2
                    \<and> map move c2 = map move c1
                    \<and> set (map move c2) = set (map move c1)))"
proof -
  let ?c1 = "map new_SgUctNode (surviving_moves flt chs)"
  from ApplyFilter_children_of [OF assms, of flt] obtain t1 where
    t1: "ApplyFilter a node flt t = Inr t1" "children_of t1 node = Some ?c1"
    by blast
  have m1: "map move ?c1 = surviving_moves flt chs"
    by (simp add: comp_def move_new_SgUctNode)
  then have s1: "set (map move ?c1) = set (map move chs) - set flt"
    by (auto simp: surviving_moves_def)
  have second: "\<exists>t2 c2. ApplyFilter a2 node flt t1 = Inr t2 \<and> children_of t2 node = Some c2
                  \<and> map move c2 = map move ?c1 \<and> set (map move c2) = set (map move ?c1)"
    if a2: "a2 < NuAllocators t1 \<and> HasCapacity (m_allocators t1 ! a2) (length ?c1)" for a2
  proof -
    from t1(2) obtain nd1 where nd1: "deref t1 node = Some nd1"
      and th: "those (map (deref t1) (child_refs nd1)) = Some ?c1"
      by (auto simp: children_of_def split: option.splits)
    from th have "length ?c1 = num_children nd1"
      by (simp add: those_map_Some_iff child_refs_def)
    with a2 have cap2: "HasCapacity (m_allocators t1 ! a2) (num_children nd1)" by simp
    from a2 have a2': "a2 < NuAllocators t1" by simp
    from ApplyFilter_children_of [OF nd1 a2' cap2 t1(2), of flt] obtain t2 where
      t2: "ApplyFilter a2 node flt t1 = Inr t2"
        "children_of t2 node = Some (map new_SgUctNode (surviving_moves flt ?c1))"
      by blast
    then have "children_of t2 node = Some ?c1" by (simp add: surviving_moves_new)
    with t2(1) show ?thesis by blast
  qed
  from t1 s1 second show ?thesis by blast
qed

lemmas ex_eval =
  ex_tree_def ex_single_def ex_empty_def ex_node_def ex_tree_filter_none_def
  ex_tree_filter_once_def ex_tree_filter_twice_def
  NuAllocators_def alloc_nodes_def HasCapacity_def HasChildren_def
  deref.simps Contains.simps modify.simps push_back_def child_refs_def children_of_def
  SetFirstChild_def SetNuChildren_def SetPosCount_def CopyDataFrom_def new_SgUctNode_def
  SG_NULLMOVE_def Let_def upt_rec

theorem C8_ApplyFilter_twice_same_child_moves_witness:
  "deref ex_tree RootRef = Some (ex_node SG_NULLMOVE 10 (1/2) (Slot 0 0) 2)
   \<and> 1 < NuAllocators ex_tree
   \<and> HasCapacity (m_allocators ex_tree ! 1) 2
   \<and> children_of ex_tree RootRef
       = Some [ex_node 3 6 (1/2) (Slot 1 0) 1, ex_node 4 4 (1/4) NullRef 0]
   \<and> ApplyFilter 1 RootRef [4] ex_tree = Inr ex_tree_filter_once
   \<and> children_of ex_tree_filter_once RootRef = Some [new_SgUctNode 3]
   \<and> 0 < NuAllocators ex_tree_filter_once
   \<and> HasCapacity (m_allocators ex_tree_filter_once ! 0) 1
   \<and> ApplyFilter 0 RootRef [4] ex_tree_filter_once = Inr ex_tree_filter_twice
   \<and> children_of ex_tree_filter_twice RootRef = Some [new_SgUctNode 3]"
  using C8_ApplyFilter_twice_same_child_moves
    [of ex_tree RootRef "ex_node SG_NULLMOVE 10 (1/2) (Slot 0 0) 2" 1
        "[ex_node 3 6 (1/2) (Slot 1 0) 1, ex_node 4 4 (1/4) NullRef 0]" "[4]"]
  by (simp add: ex_eval ApplyFilter_def)

text \<open>
  Claim C1 fails on the code.  Whenever \<open>ApplyFilter\<close> runs on a node with children, every
  child of the new block is a new node that carries only its move: visit count, move
  count, mean, RAVE count and RAVE mean are zero and it has no children, whatever the
  old child had.  (\<open>nodes.push_back(child)\<close> stores a copy of the new node before
  \<open>CopyDataFrom\<close>, \<open>SetNuChildren\<close> and \<open>SetFirstChild\<close> are applied to the local
  object.)
\<close>

theorem C1_ApplyFilter_children_are_new_nodes:
  assumes "deref t node = Some nd"
    and "a < NuAllocators t"
    and "HasCapacity (m_allocators t ! a) (num_children nd)"
    and "children_of t node = Some chs"
  shows "\<exists>t'. ApplyFilter a node flt t = Inr t'
           \<and> children_of t' node = Some (map new_SgUctNode (surviving_moves flt chs))"
  using ApplyFilter_children_of [OF assms] by blast

text \<open>
  At the root of \<open>ex_tree\<close> with the empty filter both children survive.  The child with
  move 3 had visit count 6, mean 1/2 and one child; the child that replaces it has
  visit count 0, mean 0 and no children.
\<close>

theorem C1_ApplyFilter_children_are_new_nodes_witness:
  "deref ex_tree RootRef = Some (ex_node SG_NULLMOVE 10 (1/2) (Slot 0 0) 2)
   \<and> 1 < NuAllocators ex_tree
   \<and> HasCapacity (m_allocators ex_tree ! 1) 2
   \<and> children_of ex_tree RootRef
       = Some [ex_node 3 6 (1/2) (Slot 1 0) 1, ex_node 4 4 (1/4) NullRef 0]
   \<and> ApplyFilter 1 RootRef [] ex_tree = Inr ex_tree_filter_none
   \<and> children_of ex_tree_filter_none RootRef = Some [new_SgUctNode 3, new_SgUctNode 4]
   \<and> pos_count (ex_node 3 6 (1/2) (Slot 1 0) 1) = 6
   \<and> pos_count (new_SgUctNode 3) = 0
   \<and> num_children (ex_node 3 6 (1/2) (Slot 1 0) 1) = 1
   \<and> num_children (new_SgUctNode 3) = 0"
  using C1_ApplyFilter_children_are_new_nodes
    [of ex_tree RootRef "ex_node SG_NULLMOVE 10 (1/2) (Slot 0 0) 2" 1
        "[ex_node 3 6 (1/2) (Slot 1 0) 1, ex_node 4 4 (1/4) NullRef 0]" "[]"]
  by (simp add: ex_eval ApplyFilter_def surviving_moves_def)

lemma trancl_one_level:
  assumes "(x, y) \<in> R\<^sup>+" and "\<forall>z. (x, z) \<in> R \<longrightarrow> z \<in> S" and "\<forall>s \<in> S. \<forall>z. (s, z) \<notin> R"
  shows "y \<in> S"
  using assms by (induction rule: trancl.induct) auto

text \<open>
  Claim C10.  Under the assertions of \<open>ApplyFilter\<close> (the node is in the tree, its child
  block is valid, the chosen allocator has capacity for as many nodes as the node has
  children) the call succeeds.  With \<open>k\<close> the number of children whose move is not in the
  filter: the chosen allocator grows by \<open>k\<close> nodes and no other allocator changes its
  size, so \<open>NuNodes\<close> grows by exactly \<open>k\<close>; every node that was in the tree, other than
  the filtered node itself, is where it was and unchanged, the old child block included;
  no node of the old child block is a descendant of the filtered node any more; and on a
  node without children the tree is returned as it was.
\<close>

theorem C10_ApplyFilter_appends_survivors_keeps_old_block:
  assumes node: "deref t node = Some nd"
    and a: "a < NuAllocators t"
    and cap: "HasCapacity (m_allocators t ! a) (num_children nd)"
    and kids: "children_of t node = Some chs"
  shows "\<exists>t'. ApplyFilter a node flt t = Inr t'
           \<and> NuNodes t' = NuNodes t + length (surviving_moves flt chs)
           \<and> length (alloc_nodes t' a)
               = length (alloc_nodes t a) + length (surviving_moves flt chs)
           \<and> (\<forall>b. b \<noteq> a \<longrightarrow> length (alloc_nodes t' b) = length (alloc_nodes t b))
           \<and> (\<forall>r. Contains t r \<and> r \<noteq> node \<longrightarrow> deref t' r = deref t r)
           \<and> (\<forall>c \<in> set (child_refs nd). Contains t c)
           \<and> (HasChildren nd \<longrightarrow> (\<forall>c \<in> set (child_refs nd). (node, c) \<notin> (child_rel t')\<^sup>+))
           \<and> (\<not> HasChildren nd \<longrightarrow> t' = t)"
proof (cases "HasChildren nd")
  case False
  with kids node have "chs = []" by (simp add: children_of_no_children)
  then show ?thesis
    using False ApplyFilter_result [OF assms, of flt] children_of_Contains(1) [OF kids node]
    by (simp add: surviving_moves_def)
next
  case True
  let ?sv = "surviving_moves flt chs"
  let ?ns = "map new_SgUctNode ?sv"
  let ?old = "length (alloc_nodes t a)"
  let ?t' = "publish_children node a ?ns t"
  let ?S = "{Slot a (?old + i) | i. i < length ?ns}"
  from node have cont: "Contains t node" by (simp add: Contains_deref)
  have r: "ApplyFilter a node flt t = Inr ?t'"
    using True ApplyFilter_result [OF assms, of flt] by simp
  note sz = publish_children_sizes [OF a, of node ?ns]
  have nn: "NuNodes ?t' = NuNodes t + length ?sv" using sz(4) by simp
  have la: "length (alloc_nodes ?t' a) = ?old + length ?sv" using sz(2) [of a] by simp
  have lb: "\<forall>b. b \<noteq> a \<longrightarrow> length (alloc_nodes ?t' b) = length (alloc_nodes t b)"
    using sz(2) by simp
  have old: "\<forall>r. Contains t r \<and> r \<noteq> node \<longrightarrow> deref ?t' r = deref t r"
    using publish_children_old [OF a] by blast
  note block = children_of_Contains(1) [OF kids node]
  have from_node: "\<forall>z. (node, z) \<in> child_rel ?t' \<longrightarrow> z \<in> ?S"
    using publish_children_node [OF node a, of ?ns]
    by (auto simp: child_rel_def child_refs_def)
  have from_new: "\<forall>s \<in> ?S. \<forall>z. (s, z) \<notin> child_rel ?t'"
  proof (intro ballI allI)
    fix s z assume "s \<in> ?S"
    then obtain i where i: "i < length ?ns" "s = Slot a (?old + i)" by blast
    from publish_children_new [OF a cont i(1)] i have "deref ?t' s = Some (?ns ! i)" by simp
    moreover have "child_refs (?ns ! i) = []"
      using i(1) by (simp add: child_refs_def new_SgUctNode_def)
    ultimately show "(s, z) \<notin> child_rel ?t'" by (simp add: child_rel_def)
  qed
  have unreach: "\<forall>c \<in> set (child_refs nd). (node, c) \<notin> (child_rel ?t')\<^sup>+"
  proof
    fix c assume c: "c \<in> set (child_refs nd)"
    show "(node, c) \<notin> (child_rel ?t')\<^sup>+"
    proof
      assume "(node, c) \<in> (child_rel ?t')\<^sup>+"
      from trancl_one_level [OF this from_node from_new] obtain i where "c = Slot a (?old + i)"
        by blast
      moreover from block c have "Contains t c" by blast
      ultimately show False by (simp add: Contains_Slot)
    qed
  qed
  from r nn la lb old block unreach True show ?thesis by blast
qed

theorem C10_ApplyFilter_appends_survivors_keeps_old_block_witness:
  "deref ex_tree RootRef = Some (ex_node SG_NULLMOVE 10 (1/2) (Slot 0 0) 2)
   \<and> 1 < NuAllocators ex_tree
   \<and> HasCapacity (m_allocators ex_tree ! 1) 2
   \<and> children_of ex_tree RootRef
       = Some [ex_node 3 6 (1/2) (Slot 1 0) 1, ex_node 4 4 (1/4) NullRef 0]
   \<and> surviving_moves [4] [ex_node 3 6 (1/2) (Slot 1 0) 1, ex_node 4 4 (1/4) NullRef 0] = [3]
   \<and> ApplyFilter 1 RootRef [4] ex_tree = Inr ex_tree_filter_once
   \<and> NuNodes ex_tree = 4
   \<and> NuNodes ex_tree_filter_once = 5
   \<and> HasChildren (ex_node SG_NULLMOVE 10 (1/2) (Slot 0 0) 2)
   \<and> deref ex_tree_filter_once (Slot 0 0) = deref ex_tree (Slot 0 0)
   \<and> deref ex_tree_filter_once (Slot 0 1) = deref ex_tree (Slot 0 1)"
  using C10_ApplyFilter_appends_survivors_keeps_old_block
    [of ex_tree RootRef "ex_node SG_NULLMOVE 10 (1/2) (Slot 0 0) 2" 1
        "[ex_node 3 6 (1/2) (Slot 1 0) 1, ex_node 4 4 (1/4) NullRef 0]" "[4]"]
  by (simp add: ex_eval ApplyFilter_def surviving_moves_def NuNodes_def NuNodes_alloc_def)

section \<open>The parameter commands\<close>

lemma set_param_fail: "fst (set_param arg setter s) = Inl f \<Longrightarrow> snd (set_param arg setter s) = s"
  by (cases arg) (simp_all add: set_param_def)

lemma set_param_isl: "isl arg \<Longrightarrow> \<exists>f. set_param arg setter s = (Inl f, s)"
  by (cases arg) (simp_all add: set_param_def)

lemma keep_if:
  "(\<forall>f. fst a = Inl f \<longrightarrow> snd a = s) \<Longrightarrow> (\<forall>f. fst b = Inl f \<longrightarrow> snd b = s)
    \<Longrightarrow> (\<forall>f. fst (if c then a else b) = Inl f \<longrightarrow> snd (if c then a else b) = s)"
  by simp

lemma keep_set_param:
  "\<forall>f. fst (set_param arg setter s) = Inl f \<longrightarrow> snd (set_param arg setter s) = s"
  by (cases arg) (simp_all add: set_param_def)

lemma keep_fail: "\<forall>f. fst (Inl g, s) = Inl f \<longrightarrow> snd (Inl g, s) = s"
  by simp

lemma CmdParamSearch_set_fail:
  "\<forall>f. fst (CmdParamSearch_set sx cmd name s) = Inl f
         \<longrightarrow> snd (CmdParamSearch_set sx cmd name s) = s"
  unfolding CmdParamSearch_set_def
  by (intro keep_if keep_set_param keep_fail)

lemma CmdParamPlayer_set_fail:
  "\<forall>f. fst (CmdParamPlayer_set sx cmd name p) = Inl f
         \<longrightarrow> snd (CmdParamPlayer_set sx cmd name p) = p"
  unfolding CmdParamPlayer_set_def
  by (intro keep_if keep_set_param keep_fail)

lemma SizeTypeArg_below:
  "m_arguments cmd = [name, v] \<Longrightarrow> size_below_one sx v \<Longrightarrow> isl (SizeTypeArg sx cmd 1 1)"
  by (simp add: SizeTypeArg_def Arg_def NuArg_def size_below_one_def split: option.splits)

lemma IntArg_below:
  "m_arguments cmd = [name, v] \<Longrightarrow> int_below_one sx v \<Longrightarrow> isl (IntArg sx cmd 1 1)"
  by (simp add: IntArg_def Arg_def NuArg_def int_below_one_def split: option.splits)

lemma LiveGfxArg_unknown:
  "m_arguments cmd = [name, v] \<Longrightarrow> to_lower sx v \<notin> {''none'', ''counts'', ''sequence''}
    \<Longrightarrow> isl (LiveGfxArg sx cmd 1)"
  by (simp add: LiveGfxArg_def ArgToLower_def Arg_def NuArg_def)

lemma MoveSelectArg_unknown:
  "m_arguments cmd = [name, v] \<Longrightarrow> to_lower sx v \<notin> {''value'', ''count'', ''bound'', ''estimate''}
    \<Longrightarrow> isl (MoveSelectArg sx cmd 1)"
  by (simp add: MoveSelectArg_def ArgToLower_def Arg_def NuArg_def)

lemma PriorKnowledgeArg_unknown:
  "m_arguments cmd = [name, v] \<Longrightarrow> to_lower sx v \<notin> {''none'', ''even'', ''default''}
    \<Longrightarrow> isl (PriorKnowledgeArg sx cmd 1)"
  by (simp add: PriorKnowledgeArg_def ArgToLower_def Arg_def NuArg_def)

lemma SearchModeArg_unknown:
  "m_arguments cmd = [name, v] \<Longrightarrow> to_lower sx v \<notin> {''playout_policy'', ''uct'', ''one_ply''}
    \<Longrightarrow> isl (SearchModeArg sx cmd 1)"
  by (simp add: SearchModeArg_def ArgToLower_def Arg_def NuArg_def)


lemma search_names_ne:
  assumes "name \<notin> set search_param_names"
  shows "(name = ''keep_games'') = False" "(name = ''lock_free'') = False"
    "(name = ''log_games'') = False" "(name = ''no_bias_term'') = False"
    "(name = ''rave'') = False" "(name = ''rave_check_same'') = False"
    "(name = ''bias_term_constant'') = False" "(name = ''expand_threshold'') = False"
    "(name = ''first_play_urgency'') = False" "(name = ''live_gfx'') = False"
    "(name = ''live_gfx_interval'') = False" "(name = ''move_select'') = False"
    "(name = ''number_threads'') = False" "(name = ''number_playouts'') = False"
    "(name = ''rave_weight_final'') = False" "(name = ''rave_weight_initial'') = False"
  using assms unfolding search_param_names_def
  by (simp_all only: set_simps insert_iff de_Morgan_disj simp_thms)

lemma CmdParamSearch_set_unknown:
  assumes "name \<notin> set search_param_names"
  shows "CmdParamSearch_set sx cmd name s = (Inl (GtpFailure (''unknown parameter: '' @ name)), s)"
  unfolding CmdParamSearch_set_def
  by (simp only: search_names_ne [OF assms] if_False)


lemma player_names_ne:
  assumes "name \<notin> set player_param_names"
  shows "(name = ''auto_param'') = False" "(name = ''early_pass'') = False"
    "(name = ''ignore_clock'') = False" "(name = ''ponder'') = False"
    "(name = ''reuse_subtree'') = False" "(name = ''use_root_filter'') = False"
    "(name = ''max_games'') = False" "(name = ''max_nodes'') = False"
    "(name = ''max_time'') = False" "(name = ''prior_knowledge'') = False"
    "(name = ''resign_threshold'') = False" "(name = ''search_mode'') = False"
  using assms unfolding player_param_names_def
  by (simp_all only: set_simps insert_iff de_Morgan_disj simp_thms)

lemma CmdParamPlayer_set_unknown:
  assumes "name \<notin> set player_param_names"
  shows "CmdParamPlayer_set sx cmd name p = (Inl (GtpFailure (''unknown parameter: '' @ name)), p)"
  unfolding CmdParamPlayer_set_def
  by (simp only: player_names_ne [OF assms] if_False)

lemma CmdParamSearch_set_at:
  "CmdParamSearch_set sx cmd ''expand_threshold'' s
     = set_param (SizeTypeArg sx cmd 1 1) (\<lambda>v s. s\<lparr>ExpandThreshold := v\<rparr>) s"
  "CmdParamSearch_set sx cmd ''number_threads'' s
     = set_param (SizeTypeArg sx cmd 1 1) (\<lambda>v s. s\<lparr>NumberThreads := v\<rparr>) s"
  "CmdParamSearch_set sx cmd ''number_playouts'' s
     = set_param (IntArg sx cmd 1 1) (\<lambda>v s. s\<lparr>NumberPlayouts := v\<rparr>) s"
  "CmdParamSearch_set sx cmd ''live_gfx_interval'' s
     = set_param (IntArg sx cmd 1 1) (\<lambda>v s. s\<lparr>LiveGfxInterval := v\<rparr>) s"
  "CmdParamSearch_set sx cmd ''live_gfx'' s
     = set_param (LiveGfxArg sx cmd 1) (\<lambda>v s. s\<lparr>LiveGfx := v\<rparr>) s"
  "CmdParamSearch_set sx cmd ''move_select'' s
     = set_param (MoveSelectArg sx cmd 1) (\<lambda>v s. s\<lparr>MoveSelect := v\<rparr>) s"
  unfolding CmdParamSearch_set_def
  by (simp_all only: list.inject list.distinct char.inject simp_thms if_True if_False)

lemma CmdParamPlayer_set_at:
  "CmdParamPlayer_set sx cmd ''max_games'' p
     = set_param (SizeTypeArg sx cmd 1 1) (\<lambda>v p. p\<lparr>MaxGames := v\<rparr>) p"
  "CmdParamPlayer_set sx cmd ''max_nodes'' p
     = set_param (SizeTypeArg sx cmd 1 1) (\<lambda>v p. p\<lparr>MaxNodes := v\<rparr>) p"
  "CmdParamPlayer_set sx cmd ''prior_knowledge'' p
     = set_param (PriorKnowledgeArg sx cmd 1) (\<lambda>v p. p\<lparr>PriorKnowledge := v\<rparr>) p"
  "CmdParamPlayer_set sx cmd ''search_mode'' p
     = set_param (SearchModeArg sx cmd 1) (\<lambda>v p. p\<lparr>SearchMode := v\<rparr>) p"
  unfolding CmdParamPlayer_set_def
  by (simp_all only: list.inject list.distinct char.inject simp_thms if_True if_False)

lemma CmdParamSearch_set_bad:
  assumes args: "m_arguments cmd = [name, v]" and bad: "bad_search_request sx name v"
  shows "\<exists>f. CmdParamSearch_set sx cmd name s = (Inl f, s)"
  using bad unfolding bad_search_request_def
proof (elim disjE conjE)
  assume "name \<notin> set search_param_names"
  from CmdParamSearch_set_unknown [OF this] show ?thesis by blast
next
  assume "name = ''expand_threshold''" "size_below_one sx v"
  then show ?thesis
    using set_param_isl [OF SizeTypeArg_below [OF args]] by (simp only: CmdParamSearch_set_at)
next
  assume "name = ''number_threads''" "size_below_one sx v"
  then show ?thesis
    using set_param_isl [OF SizeTypeArg_below [OF args]] by (simp only: CmdParamSearch_set_at)
next
  assume "name = ''number_playouts''" "int_below_one sx v"
  then show ?thesis
    using set_param_isl [OF IntArg_below [OF args]] by (simp only: CmdParamSearch_set_at)
next
  assume "name = ''live_gfx_interval''" "int_below_one sx v"
  then show ?thesis
    using set_param_isl [OF IntArg_below [OF args]] by (simp only: CmdParamSearch_set_at)
next
  assume "name = ''live_gfx''" "to_lower sx v \<notin> {''none'', ''counts'', ''sequence''}"
  then show ?thesis
    using set_param_isl [OF LiveGfxArg_unknown [OF args]] by (simp only: CmdParamSearch_set_at)
next
  assume "name = ''move_select''"
    "to_lower sx v \<notin> {''value'', ''count'', ''bound'', ''estimate''}"
  then show ?thesis
    using set_param_isl [OF MoveSelectArg_unknown [OF args]] by (simp only: CmdParamSearch_set_at)
qed

lemma CmdParamPlayer_set_bad:
  assumes args: "m_arguments cmd = [name, v]" and bad: "bad_player_request sx name v"
  shows "\<exists>f. CmdParamPlayer_set sx cmd name p = (Inl f, p)"
  using bad unfolding bad_player_request_def
proof (elim disjE conjE)
  assume "name \<notin> set player_param_names"
  from CmdParamPlayer_set_unknown [OF this] show ?thesis by blast
next
  assume "name = ''max_games''" "size_below_one sx v"
  then show ?thesis
    using set_param_isl [OF SizeTypeArg_below [OF args]] by (simp only: CmdParamPlayer_set_at)
next
  assume "name = ''max_nodes''" "size_below_one sx v"
  then show ?thesis
    using set_param_isl [OF SizeTypeArg_below [OF args]] by (simp only: CmdParamPlayer_set_at)
next
  assume "name = ''prior_knowledge''" "to_lower sx v \<notin> {''none'', ''even'', ''default''}"
  then show ?thesis
    using set_param_isl [OF PriorKnowledgeArg_unknown [OF args]]
    by (simp only: CmdParamPlayer_set_at)
next
  assume "name = ''search_mode''"
    "to_lower sx v \<notin> {''playout_policy'', ''uct'', ''one_ply''}"
  then show ?thesis
    using set_param_isl [OF SearchModeArg_unknown [OF args]]
    by (simp only: CmdParamPlayer_set_at)
qed

lemma CmdParamSearch_two_args:
  assumes "m_arguments cmd = [name, v]"
  shows "CmdParamSearch sx cmd m_player =
           (case Search m_player of
              Inl f \<Rightarrow> (Inl f, m_player)
            | Inr s \<Rightarrow>
                (case CmdParamSearch_set sx cmd name s of
                   (r, s') \<Rightarrow> (r, put_search s' m_player)))"
  using assms
  by (cases "Search m_player")
     (simp_all add: CmdParamSearch_def CheckNuArgLessEqual_def NuArg_def Arg_def)

lemma CmdParamPlayer_two_args:
  assumes "m_arguments cmd = [name, v]"
  shows "CmdParamPlayer sx cmd m_player =
           (case Player m_player of
              Inl f \<Rightarrow> (Inl f, m_player)
            | Inr p \<Rightarrow>
                (case CmdParamPlayer_set sx cmd name p of
                   (r, p') \<Rightarrow> (r, Some (UctPlayer p'))))"
  using assms
  by (cases "Player m_player")
     (simp_all add: CmdParamPlayer_def CheckNuArgLessEqual_def NuArg_def Arg_def)

lemma Search_cases:
  obtains f where "Search m_player = Inl f"
  | p where "m_player = Some (UctPlayer p)" "Search m_player = Inr (m_search p)"
  by (cases m_player; cases "the m_player") (simp_all add: Search_def)

lemma Player_cases:
  obtains f where "Player m_player = Inl f"
  | p where "m_player = Some (UctPlayer p)" "Player m_player = Inr p"
  by (cases m_player; cases "the m_player") (simp_all add: Player_def)

lemma put_search_same: "put_search (m_search p) (Some (UctPlayer p)) = Some (UctPlayer p)"
  by (simp add: put_search_def)

lemma CmdParamSearch_bad:
  assumes args: "m_arguments cmd = [name, v]" and bad: "bad_search_request sx name v"
  shows "\<exists>f. CmdParamSearch sx cmd m_player = (Inl f, m_player)"
proof (cases m_player rule: Search_cases)
  case (1 f)
  then show ?thesis by (simp add: CmdParamSearch_two_args [OF args])
next
  case (2 p)
  from CmdParamSearch_set_bad [OF args bad, of "m_search p"] obtain f where
    "CmdParamSearch_set sx cmd name (m_search p) = (Inl f, m_search p)" by blast
  with 2 show ?thesis
    by (simp add: CmdParamSearch_two_args [OF args] put_search_same)
qed

lemma CmdParamPlayer_bad:
  assumes args: "m_arguments cmd = [name, v]" and bad: "bad_player_request sx name v"
  shows "\<exists>f. CmdParamPlayer sx cmd m_player = (Inl f, m_player)"
proof (cases m_player rule: Player_cases)
  case (1 f)
  then show ?thesis by (simp add: CmdParamPlayer_two_args [OF args])
next
  case (2 p)
  from CmdParamPlayer_set_bad [OF args bad, of p] obtain f where
    "CmdParamPlayer_set sx cmd name p = (Inl f, p)" by blast
  with 2 show ?thesis
    by (simp add: CmdParamPlayer_two_args [OF args])
qed

lemma CmdParamSearch_fail_unchanged:
  assumes args: "m_arguments cmd = [name, v]"
    and fail: "fst (CmdParamSearch sx cmd m_player) = Inl f"
  shows "snd (CmdParamSearch sx cmd m_player) = m_player"
proof (cases m_player rule: Search_cases)
  case (1 g)
  then show ?thesis by (simp add: CmdParamSearch_two_args [OF args])
next
  case (2 p)
  obtain r s' where set: "CmdParamSearch_set sx cmd name (m_search p) = (r, s')"
    by (cases "CmdParamSearch_set sx cmd name (m_search p)")
  with 2 have res: "CmdParamSearch sx cmd m_player = (r, put_search s' m_player)"
    by (simp add: CmdParamSearch_two_args [OF args])
  with fail have "r = Inl f" by simp
  with CmdParamSearch_set_fail [of sx cmd name "m_search p"] set have "s' = m_search p"
    by simp
  with res 2 show ?thesis by (simp add: put_search_same)
qed

lemma CmdParamPlayer_fail_unchanged:
  assumes args: "m_arguments cmd = [name, v]"
    and fail: "fst (CmdParamPlayer sx cmd m_player) = Inl f"
  shows "snd (CmdParamPlayer sx cmd m_player) = m_player"
proof (cases m_player rule: Player_cases)
  case (1 g)
  then show ?thesis by (simp add: CmdParamPlayer_two_args [OF args])
next
  case (2 p)
  obtain r p' where set: "CmdParamPlayer_set sx cmd name p = (r, p')"
    by (cases "CmdParamPlayer_set sx cmd name p")
  with 2 have res: "CmdParamPlayer sx cmd m_player = (r, Some (UctPlayer p'))"
    by (simp add: CmdParamPlayer_two_args [OF args])
  with fail have "r = Inl f" by simp
  with CmdParamPlayer_set_fail [of sx cmd name p] set have "p' = p"
    by simp
  with res 2 show ?thesis by simp
qed

text \<open>
  Claim C9.  A parameter command with a key and a value (two arguments) is given.  If the
  key is not one the command knows, or it is one of the parameters read with minimum 1
  (\<open>expand_threshold\<close>, \<open>number_threads\<close>, \<open>number_playouts\<close>, \<open>live_gfx_interval\<close> of
  the search; \<open>max_games\<close>, \<open>max_nodes\<close> of the player) and the value is not a number or
  is below 1, or it is an enumeration parameter and the value is none of its names, then
  the command fails with a \<open>GtpFailure\<close> and the player with all its parameters,
  those of its search included, is as before.  More generally every failure of such a
  command leaves the player as it was.
\<close>

theorem C9_bad_parameter_rejected_nothing_changed:
  assumes "m_arguments cmd = [name, v]"
  shows "(bad_search_request sx name v \<longrightarrow>
            (\<exists>f. CmdParamSearch sx cmd m_player = (Inl f, m_player)))
       \<and> (bad_player_request sx name v \<longrightarrow>
            (\<exists>f. CmdParamPlayer sx cmd m_player = (Inl f, m_player)))
       \<and> (\<forall>f. fst (CmdParamSearch sx cmd m_player) = Inl f \<longrightarrow>
            snd (CmdParamSearch sx cmd m_player) = m_player)
       \<and> (\<forall>f. fst (CmdParamPlayer sx cmd m_player) = Inl f \<longrightarrow>
            snd (CmdParamPlayer sx cmd m_player) = m_player)"
  using CmdParamSearch_bad [OF assms] CmdParamPlayer_bad [OF assms]
    CmdParamSearch_fail_unchanged [OF assms] CmdParamPlayer_fail_unchanged [OF assms]
  by blast

lemma read_size_0: "read_size ''0'' = Some 0"
  by (simp add: read_size_def digit_value_def)

theorem C9_bad_parameter_rejected_nothing_changed_witness:
  "m_arguments \<lparr>m_arguments = [''number_threads'', ''0'']\<rparr> = [''number_threads'', ''0'']
   \<and> bad_search_request ex_syntax ''number_threads'' ''0''
   \<and> CmdParamSearch ex_syntax \<lparr>m_arguments = [''number_threads'', ''0'']\<rparr>
         (Some (UctPlayer ex_player))
       = (Inl (GtpFailure ''argument must be greater or equal to the minimum''),
          Some (UctPlayer ex_player))
   \<and> bad_player_request ex_syntax ''number_threads'' ''0''
   \<and> CmdParamPlayer ex_syntax \<lparr>m_arguments = [''number_threads'', ''0'']\<rparr>
         (Some (UctPlayer ex_player))
       = (Inl (GtpFailure ''unknown parameter: number_threads''), Some (UctPlayer ex_player))"
  using C9_bad_parameter_rejected_nothing_changed
    [of "\<lparr>m_arguments = [''number_threads'', ''0'']\<rparr>" "''number_threads''" "''0''"
        ex_syntax "Some (UctPlayer ex_player)"]
  by (simp add: bad_search_request_def bad_player_request_def size_below_one_def
      search_param_names_def player_param_names_def ex_syntax_def read_size_0
      CmdParamSearch_def CmdParamPlayer_def CheckNuArgLessEqual_def NuArg_def Arg_def
      Search_def Player_def CmdParamSearch_set_def CmdParamPlayer_set_def set_param_def
      SizeTypeArg_def put_search_def)

text \<open>A value that is read as a number not below 1 is stored.\<close>

lemma CmdParamSearch_accepts_example:
  "CmdParamSearch ex_syntax \<lparr>m_arguments = [''number_threads'', ''8'']\<rparr>
     (Some (UctPlayer ex_player))
   = (Inr [], Some (UctPlayer (ex_player\<lparr>m_search := ex_search\<lparr>NumberThreads := 8\<rparr>\<rparr>)))"
  by (simp add: ex_syntax_def read_size_def digit_value_def ex_player_def
      CmdParamSearch_def CheckNuArgLessEqual_def NuArg_def Arg_def
      Search_def CmdParamSearch_set_def set_param_def SizeTypeArg_def put_search_def)

section \<open>CopySubtree: the steps of one call\<close>

lemma CopySubtree_checks_eq:
  "CopySubtree_checks env maxTime k st =
     (st\<lparr>polls := polls st + 1,
         SgDebug := SgDebug st @
           (if warnTruncate st
            then reason_msgs (\<not> HasCapacity (m_allocators (target st) ! currentAllocatorId st) k)
                   (IsTimeOut env maxTime (polls st)) (SgUserAbort env (polls st))
            else [])\<rparr>,
      \<not> HasCapacity (m_allocators (target st) ! currentAllocatorId st) k
      \<or> IsTimeOut env maxTime (polls st) \<or> SgUserAbort env (polls st))"
  by (simp add: CopySubtree_checks_def debug_if_warn_def reason_msgs_def Let_def)

lemma HasCapacity_append_nodes:
  "a < NuAllocators t \<Longrightarrow>
   HasCapacity (m_allocators (append_nodes a ns t) ! a) k
     = HasCapacity (m_allocators t ! a) (length ns + k)"
  using alloc_nodes_append_nodes [of a t ns a] capacity_append_nodes [of a ns t a]
  by (simp add: HasCapacity_def alloc_nodes_def add.assoc)

lemma CopySubtree_create_append:
  "a < NuAllocators t \<Longrightarrow> HasCapacity (m_allocators t ! a) k \<Longrightarrow>
   CopySubtree_create a k t = Inr (append_nodes a (replicate k (new_SgUctNode SG_NULLMOVE)) t)"
proof (induction k arbitrary: t)
  case 0
  then show ?case by (simp add: append_nodes_Nil)
next
  case (Suc k)
  let ?t1 = "append_nodes a [new_SgUctNode SG_NULLMOVE] t"
  from Suc.prems have c1: "HasCapacity (m_allocators t ! a) 1"
    by (simp add: HasCapacity_def)
  have a1: "a < NuAllocators ?t1" using Suc.prems by (simp add: NuAllocators_append_nodes)
  have "HasCapacity (m_allocators ?t1 ! a) k"
    using Suc.prems by (simp add: HasCapacity_append_nodes)
  from Suc.IH [OF a1 this] c1 Suc.prems(1) show ?case
    by (simp add: push_back_append_nodes append_nodes_append replicate_app_Cons_same)
qed

lemma CopySubtree_body_Inr_D:
  assumes "CopySubtree_body rec env maxTime src tn node st = Inr st'"
  obtains nd where "deref src node = Some nd" "Contains (target st) tn"
    "\<not> HasChildren nd \<or> currentAllocatorId st < NuAllocators (target st)"
  using assms
  by (auto simp: CopySubtree_body_def Let_def NuAllocators_modify split: option.splits if_splits)

lemma CopySubtree_body_leaf:
  assumes "deref src node = Some nd" "Contains (target st) tn" "\<not> HasChildren nd"
  shows "CopySubtree_body rec env maxTime src tn node st
           = Inr (st\<lparr>target := modify tn (CopyDataFrom nd) (target st)\<rparr>)"
  using assms by (simp add: CopySubtree_body_def)

lemma CopySubtree_body_truncate:
  assumes "deref src node = Some nd" "Contains (target st) tn" "HasChildren nd"
    and "currentAllocatorId st < NuAllocators (target st)"
    and "must_truncate env maxTime nd st"
  shows "CopySubtree_body rec env maxTime src tn node st
           = Inr (truncate_state env maxTime tn nd st)"
  using assms
  by (cases st)
     (simp add: CopySubtree_body_def CopySubtree_checks_eq Let_def NuAllocators_modify
      HasCapacity_modify must_truncate_def truncate_state_def)

lemma CopySubtree_body_descend:
  assumes "deref src node = Some nd" "Contains (target st) tn" "HasChildren nd"
    and "currentAllocatorId st < NuAllocators (target st)"
    and "\<not> must_truncate env maxTime nd st"
  shows "CopySubtree_body rec env maxTime src tn node st
           = CopySubtree_recurse rec (currentAllocatorId st)
               (length (alloc_nodes (target st) (currentAllocatorId st))) 0 (child_refs nd)
               (descend_state tn nd st)"
proof -
  let ?a = "currentAllocatorId st"
  let ?t3 = "modify tn (SetNuChildren (num_children nd))
               (modify tn (SetFirstChild (Slot ?a (length (alloc_nodes (target st) ?a))))
                  (modify tn (CopyDataFrom nd) (target st)))"
  from assms(5) have cap: "HasCapacity (m_allocators (target st) ! ?a) (num_children nd)"
    by (simp add: must_truncate_def)
  then have "HasCapacity (m_allocators ?t3 ! ?a) (num_children nd)"
    by (simp add: HasCapacity_modify)
  moreover have "?a < NuAllocators ?t3" using assms(4) by (simp add: NuAllocators_modify)
  ultimately have "CopySubtree_create ?a (num_children nd) ?t3
      = Inr (append_nodes ?a (replicate (num_children nd) (new_SgUctNode SG_NULLMOVE)) ?t3)"
    by (simp add: CopySubtree_create_append)
  then show ?thesis
    using assms
    by (cases st)
       (simp add: CopySubtree_body_def CopySubtree_checks_eq Let_def NuAllocators_modify
        HasCapacity_modify must_truncate_def descend_state_def length_alloc_nodes_modify
        reason_msgs_def)
qed

section \<open>Validity and growth of the target\<close>

lemma valid_tree_iff:
  "valid_tree t =
     ((\<forall>r nd. deref t r = Some nd \<longrightarrow> valid_node t nd)
      \<and> (\<forall>a < NuAllocators t. length (alloc_nodes t a) \<le> capacity (m_allocators t ! a)))"
proof
  assume v: "valid_tree t"
  have "valid_node t nd" if "deref t r = Some nd" for r nd
  proof (cases r)
    case (Slot a i)
    with that have a: "a < length (m_allocators t)" and i: "i < length (m_nodes (m_allocators t ! a))"
      and nd: "nd = m_nodes (m_allocators t ! a) ! i"
      by (auto simp: deref.simps NuAllocators_def alloc_nodes_def split: if_splits)
    from v a have "list_all (valid_node t) (m_nodes (m_allocators t ! a))"
      by (simp add: valid_tree_def list_all_length)
    with i nd show ?thesis by (simp add: list_all_length)
  next
    case RootRef
    with that v show ?thesis by (simp add: deref.simps valid_tree_def)
  next
    case NullRef
    with that show ?thesis by (simp add: deref.simps)
  qed
  moreover have "length (alloc_nodes t a) \<le> capacity (m_allocators t ! a)"
    if "a < NuAllocators t" for a
    using v that by (simp add: valid_tree_def list_all_length NuAllocators_def alloc_nodes_def)
  ultimately show "(\<forall>r nd. deref t r = Some nd \<longrightarrow> valid_node t nd)
      \<and> (\<forall>a < NuAllocators t. length (alloc_nodes t a) \<le> capacity (m_allocators t ! a))"
    by blast
next
  assume r: "(\<forall>r nd. deref t r = Some nd \<longrightarrow> valid_node t nd)
      \<and> (\<forall>a < NuAllocators t. length (alloc_nodes t a) \<le> capacity (m_allocators t ! a))"
  have root: "valid_node t (m_root t)"
    using r deref_RootRef [of t] by blast
  have "list_all (valid_node t) (m_nodes (m_allocators t ! a))
        \<and> length (m_nodes (m_allocators t ! a)) \<le> capacity (m_allocators t ! a)"
    if a: "a < length (m_allocators t)" for a
  proof -
    have "valid_node t (m_nodes (m_allocators t ! a) ! i)"
      if "i < length (m_nodes (m_allocators t ! a))" for i
    proof -
      from a that have "deref t (Slot a i) = Some (m_nodes (m_allocators t ! a) ! i)"
        by (simp add: deref.simps NuAllocators_def alloc_nodes_def)
      with r show ?thesis by blast
    qed
    moreover from r a have "length (m_nodes (m_allocators t ! a)) \<le> capacity (m_allocators t ! a)"
      by (simp add: NuAllocators_def alloc_nodes_def)
    ultimately show ?thesis by (simp add: list_all_length)
  qed
  with root show "valid_tree t" by (simp add: valid_tree_def list_all_length)
qed

lemma valid_node_grows: "grows t t' \<Longrightarrow> valid_node t nd \<Longrightarrow> valid_node t' nd"
proof -
  assume g: "grows t t'" and v: "valid_node t nd"
  show ?thesis
  proof (cases "num_children nd = 0")
    case True
    then show ?thesis by (simp add: valid_node_def)
  next
    case False
    with v obtain a i where fc: "first_child nd = Slot a i" and a: "a < NuAllocators t"
      and i: "i + num_children nd \<le> length (alloc_nodes t a)"
      by (auto simp: valid_node_def split: node_ref.splits)
    from g have "length (alloc_nodes t a) \<le> length (alloc_nodes t' a)" "NuAllocators t' = NuAllocators t"
      by (simp_all add: grows_def)
    with fc a i show ?thesis by (simp add: valid_node_def)
  qed
qed

lemma grows_refl: "grows t t"
  by (simp add: grows_def)

lemma grows_trans: "grows t t' \<Longrightarrow> grows t' t'' \<Longrightarrow> grows t t''"
  unfolding grows_def by (metis order_trans)

lemma grows_modify: "grows t (modify r f t)"
  by (simp add: grows_def NuAllocators_modify m_maxNodes_modify length_alloc_nodes_modify
      capacity_modify)

lemma grows_append_nodes: "a < NuAllocators t \<Longrightarrow> grows t (append_nodes a ns t)"
  by (simp add: grows_def NuAllocators_append_nodes m_maxNodes_append_nodes
      alloc_nodes_append_nodes capacity_append_nodes)

lemma warned_refl: "warned st st"
  by (simp add: warned_def)

lemma warned_trans: "warned st st' \<Longrightarrow> warned st' st'' \<Longrightarrow> warned st st''"
  unfolding warned_def by (auto split: if_splits)

lemma copy_rel_refl: "copy_rel st st"
  by (simp add: copy_rel_def grows_refl warned_refl)

lemma copy_rel_trans: "copy_rel st st' \<Longrightarrow> copy_rel st' st'' \<Longrightarrow> copy_rel st st''"
  unfolding copy_rel_def using grows_trans warned_trans by blast

lemma valid_node_links:
  "first_child nd' = first_child nd \<Longrightarrow> num_children nd' = num_children nd
    \<Longrightarrow> valid_node t nd' = valid_node t nd"
  by (simp add: valid_node_def split: node_ref.splits)

lemma valid_tree_modify_links:
  assumes v: "valid_tree t"
    and f: "\<And>nd. first_child (f nd) = first_child nd \<and> num_children (f nd) = num_children nd"
  shows "valid_tree (modify r f t)"
  unfolding valid_tree_iff
proof (intro conjI allI impI)
  fix r' nd' assume d: "deref (modify r f t) r' = Some nd'"
  have "valid_node t nd'"
  proof (cases "r' = r")
    case True
    with d obtain nd where nd: "deref t r = Some nd" "nd' = f nd"
      by (auto simp: deref_modify)
    from v nd(1) have "valid_node t nd" by (auto simp: valid_tree_iff)
    with nd(2) f [of nd] valid_node_links [of "f nd" nd t] show ?thesis by simp
  next
    case False
    with d have "deref t r' = Some nd'" by (simp add: deref_modify)
    with v show ?thesis by (auto simp: valid_tree_iff)
  qed
  with grows_modify show "valid_node (modify r f t) nd'"
    by (rule valid_node_grows)
next
  fix a assume "a < NuAllocators (modify r f t)"
  then show "length (alloc_nodes (modify r f t) a) \<le> capacity (m_allocators (modify r f t) ! a)"
    using v by (simp add: valid_tree_iff NuAllocators_modify length_alloc_nodes_modify capacity_modify)
qed

lemma valid_tree_CopyDataFrom: "valid_tree t \<Longrightarrow> valid_tree (modify r (CopyDataFrom nd) t)"
  by (rule valid_tree_modify_links) (simp_all add: CopyDataFrom_def)

lemma valid_tree_SetPosCount: "valid_tree t \<Longrightarrow> valid_tree (modify r (SetPosCount k) t)"
  by (rule valid_tree_modify_links) (simp_all add: SetPosCount_def)

lemma target_descend_state:
  "target (descend_state tn nd st) =
     append_nodes (currentAllocatorId st) (replicate (num_children nd) (new_SgUctNode SG_NULLMOVE))
       (modify tn (SetNuChildren (num_children nd))
          (modify tn
             (SetFirstChild
                (Slot (currentAllocatorId st)
                   (length (alloc_nodes (target st) (currentAllocatorId st)))))
             (modify tn (CopyDataFrom nd) (target st))))"
  by (simp add: descend_state_def)

lemma descend_state_fields:
  "currentAllocatorId (descend_state tn nd st) = currentAllocatorId st"
  "warnTruncate (descend_state tn nd st) = warnTruncate st"
  "SgDebug (descend_state tn nd st) = SgDebug st"
  "polls (descend_state tn nd st) = polls st + 1"
  by (simp_all add: descend_state_def)

text \<open>What the target holds when the loop over the children starts.\<close>

lemma descend_state_facts:
  fixes nd :: SgUctNode
  assumes tn: "deref (target st) tn = Some old"
    and a: "currentAllocatorId st < NuAllocators (target st)"
  defines "a \<equiv> currentAllocatorId st"
  defines "first \<equiv> length (alloc_nodes (target st) (currentAllocatorId st))"
  defines "t' \<equiv> target (descend_state tn nd st)"
  shows "grows (target st) t'"
    and "length (alloc_nodes t' b)
           = (if b = a then first + num_children nd else length (alloc_nodes (target st) b))"
    and "deref t' tn
           = Some ((CopyDataFrom nd old)\<lparr>first_child := Slot a first,
                                        num_children := num_children nd\<rparr>)"
    and "\<And>r. Contains (target st) r \<Longrightarrow> r \<noteq> tn \<Longrightarrow> deref t' r = deref (target st) r"
    and "\<And>i. i < num_children nd \<Longrightarrow>
           deref t' (Slot a (first + i)) = Some (new_SgUctNode SG_NULLMOVE)"
    and "\<And>r. Contains t' r =
           (Contains (target st) r \<or> (\<exists>i < num_children nd. r = Slot a (first + i)))"
    and "NuNodes t' = NuNodes (target st) + num_children nd"
proof -
  let ?t0 = "target st"
  let ?t1 = "modify tn (CopyDataFrom nd) ?t0"
  let ?t2 = "modify tn (SetFirstChild (Slot a first)) ?t1"
  let ?t3 = "modify tn (SetNuChildren (num_children nd)) ?t2"
  let ?ns = "replicate (num_children nd) (new_SgUctNode SG_NULLMOVE)"
  have t': "t' = append_nodes a ?ns ?t3"
    by (simp add: t'_def target_descend_state a_def first_def)
  have a3: "a < NuAllocators ?t3" using a by (simp add: NuAllocators_modify a_def)
  have len3: "length (alloc_nodes ?t3 b) = length (alloc_nodes ?t0 b)" for b
    by (simp add: length_alloc_nodes_modify)
  have cont3: "Contains ?t3 r = Contains ?t0 r" for r
    by (simp add: Contains_modify)
  have "grows ?t0 ?t1" "grows ?t1 ?t2" "grows ?t2 ?t3"
    by (rule grows_modify)+
  then have g3: "grows ?t0 ?t3"
    by (blast intro: grows_trans)
  show "grows ?t0 t'"
    unfolding t' using g3 grows_append_nodes [OF a3] by (rule grows_trans)
  show "length (alloc_nodes t' b)
           = (if b = a then first + num_children nd else length (alloc_nodes ?t0 b))" for b
    unfolding t' using a3
    by (simp add: alloc_nodes_append_nodes length_alloc_nodes_modify first_def a_def)
  have d3: "deref ?t3 tn
              = Some ((CopyDataFrom nd old)\<lparr>first_child := Slot a first,
                                           num_children := num_children nd\<rparr>)"
    using tn by (simp add: deref_modify SetFirstChild_def SetNuChildren_def)
  from d3 have ctn: "Contains ?t3 tn" by (simp add: Contains_deref)
  show "deref t' tn
           = Some ((CopyDataFrom nd old)\<lparr>first_child := Slot a first,
                                        num_children := num_children nd\<rparr>)"
    unfolding t' using d3 deref_append_nodes_old [OF a3 ctn] by simp
  show "deref t' r = deref ?t0 r" if "Contains ?t0 r" "r \<noteq> tn" for r
  proof -
    from that(1) have "Contains ?t3 r" by (simp add: cont3)
    from deref_append_nodes_old [OF a3 this] that(2) show ?thesis
      unfolding t' by (simp add: deref_modify)
  qed
  show "deref t' (Slot a (first + i)) = Some (new_SgUctNode SG_NULLMOVE)"
    if "i < num_children nd" for i
  proof -
    have "deref (append_nodes a ?ns ?t3) (Slot a (length (alloc_nodes ?t3 a) + i)) = Some (?ns ! i)"
      by (rule deref_append_nodes_new [OF a3]) (use that in simp)
    then show ?thesis unfolding t' using that
      by (simp add: length_alloc_nodes_modify first_def a_def)
  qed
  show "Contains t' r =
           (Contains ?t0 r \<or> (\<exists>i < num_children nd. r = Slot a (first + i)))" for r
    unfolding t' using Contains_append_nodes [OF a3, of ?ns r]
    by (simp add: Contains_modify length_alloc_nodes_modify first_def a_def)
  show "NuNodes t' = NuNodes ?t0 + num_children nd"
    unfolding t' using a3 by (simp add: NuNodes_append_nodes NuNodes_modify)
qed

lemma valid_tree_descend_state:
  fixes nd :: SgUctNode
  assumes v: "valid_tree (target st)"
    and tn: "deref (target st) tn = Some old"
    and a: "currentAllocatorId st < NuAllocators (target st)"
    and cap: "HasCapacity (m_allocators (target st) ! currentAllocatorId st) (num_children nd)"
  shows "valid_tree (target (descend_state tn nd st))"
  unfolding valid_tree_iff
proof (intro conjI allI impI)
  let ?t = "target st" and ?t' = "target (descend_state tn nd st)"
  let ?a = "currentAllocatorId st"
  let ?first = "length (alloc_nodes ?t ?a)"
  note f = descend_state_facts [OF tn a, where nd = nd]
  from f(1) have n: "NuAllocators ?t' = NuAllocators ?t"
    and c: "\<And>b. capacity (m_allocators ?t' ! b) = capacity (m_allocators ?t ! b)"
    by (simp_all add: grows_def)
  {
    fix r x assume d: "deref ?t' r = Some x"
    then have "Contains ?t' r" by (simp add: Contains_deref)
    then consider (old) "Contains ?t r" | (new) i where "i < num_children nd" "r = Slot ?a (?first + i)"
      using f(6) by blast
    then show "valid_node ?t' x"
    proof cases
      case old
      show ?thesis
      proof (cases "r = tn")
        case True
        with d f(3) have "first_child x = Slot ?a ?first" "num_children x = num_children nd"
          by auto
        then show ?thesis using a n f(2) [of ?a] by (simp add: valid_node_def)
      next
        case False
        with old f(4) d have "deref ?t r = Some x" by simp
        with v have "valid_node ?t x" by (auto simp: valid_tree_iff)
        with f(1) show ?thesis by (rule valid_node_grows)
      qed
    next
      case new
      with f(5) d have "x = new_SgUctNode SG_NULLMOVE" by simp
      then show ?thesis by (simp add: valid_node_def new_SgUctNode_def)
    qed
  }
  {
    fix b assume "b < NuAllocators ?t'"
    then have b: "b < NuAllocators ?t" by (simp add: n)
    show "length (alloc_nodes ?t' b) \<le> capacity (m_allocators ?t' ! b)"
    proof (cases "b = ?a")
      case True
      from cap have "?first + num_children nd \<le> capacity (m_allocators ?t ! ?a)"
        by (simp add: HasCapacity_def alloc_nodes_def)
      with True show ?thesis by (simp add: f(2) c)
    next
      case False
      with v b show ?thesis by (simp add: f(2) c valid_tree_iff)
    qed
  }
qed

lemma copy_rel_leaf:
  "copy_rel st (st\<lparr>target := modify tn (CopyDataFrom nd) (target st)\<rparr>)"
  by (simp add: copy_rel_def grows_modify warned_def valid_tree_CopyDataFrom)

lemma copy_rel_allocator: "copy_rel st (st\<lparr>currentAllocatorId := c\<rparr>)"
  by (simp add: copy_rel_def grows_refl warned_def)

lemma copy_rel_truncate:
  assumes "must_truncate env maxTime nd st"
  shows "copy_rel st (truncate_state env maxTime tn nd st)"
proof -
  have "grows (target st) (target (truncate_state env maxTime tn nd st))"
    by (simp add: truncate_state_def grows_trans [OF grows_modify grows_modify])
  moreover have "warned st (truncate_state env maxTime tn nd st)"
    using assms by (auto simp: warned_def truncate_state_def must_truncate_def)
  moreover have "valid_tree (target st)
      \<longrightarrow> valid_tree (target (truncate_state env maxTime tn nd st))"
    by (simp add: truncate_state_def valid_tree_CopyDataFrom valid_tree_SetPosCount)
  ultimately show ?thesis by (simp add: copy_rel_def)
qed

lemma copy_rel_descend:
  fixes nd :: SgUctNode
  assumes "Contains (target st) tn"
    and "currentAllocatorId st < NuAllocators (target st)"
    and "\<not> must_truncate env maxTime nd st"
  shows "copy_rel st (descend_state tn nd st)"
proof -
  from assms(1) obtain old where old: "deref (target st) tn = Some old"
    by (auto simp: Contains_deref)
  from assms(3) have cap:
    "HasCapacity (m_allocators (target st) ! currentAllocatorId st) (num_children nd)"
    by (simp add: must_truncate_def)
  have "warned st (descend_state tn nd st)"
    by (simp add: warned_def descend_state_fields)
  with descend_state_facts(1) [OF old assms(2), where nd = nd]
    valid_tree_descend_state [OF _ old assms(2) cap]
  show ?thesis by (simp add: copy_rel_def)
qed

lemma CopySubtree_recurse_Cons:
  "CopySubtree_recurse rec a first i (c # cs) st =
     (case rec (Slot a (first + i)) c (st\<lparr>currentAllocatorId := next_allocator st\<rparr>) of
        Inl e \<Rightarrow> Inl e
      | Inr st2 \<Rightarrow> CopySubtree_recurse rec a first (i + 1) cs st2)"
  by (simp add: Let_def next_allocator_def)

lemma CopySubtree_recurse_rel:
  assumes rec: "\<And>tn node st st'. rec tn node st = Inr st' \<Longrightarrow> copy_rel st st'"
  shows "CopySubtree_recurse rec a first i cs st = Inr st' \<Longrightarrow> copy_rel st st'"
proof (induction cs arbitrary: i st)
  case Nil
  then show ?case by (simp add: copy_rel_refl)
next
  case (Cons c cs)
  let ?st1 = "st\<lparr>currentAllocatorId := next_allocator st\<rparr>"
  from Cons.prems obtain st2 where
    st2: "rec (Slot a (first + i)) c ?st1 = Inr st2"
    and rest: "CopySubtree_recurse rec a first (i + 1) cs st2 = Inr st'"
    unfolding CopySubtree_recurse_Cons by (auto split: sum.splits)
  have "copy_rel st ?st1" by (rule copy_rel_allocator)
  moreover have "copy_rel ?st1 st2" using st2 by (rule rec)
  moreover have "copy_rel st2 st'" using rest by (rule Cons.IH)
  ultimately show ?case by (blast intro: copy_rel_trans)
qed

lemma CopySubtree_body_rel:
  assumes rec: "\<And>tn node st st'. rec tn node st = Inr st' \<Longrightarrow> copy_rel st st'"
    and body: "CopySubtree_body rec env maxTime src tn node st = Inr st'"
  shows "copy_rel st st'"
proof -
  from body obtain nd where nd: "deref src node = Some nd" and tn: "Contains (target st) tn"
    and a: "\<not> HasChildren nd \<or> currentAllocatorId st < NuAllocators (target st)"
    by (rule CopySubtree_body_Inr_D)
  show ?thesis
  proof (cases "HasChildren nd")
    case False
    from body have "st' = st\<lparr>target := modify tn (CopyDataFrom nd) (target st)\<rparr>"
      by (simp add: CopySubtree_body_leaf [OF nd tn False])
    then show ?thesis by (simp add: copy_rel_leaf)
  next
    case True
    with a have a: "currentAllocatorId st < NuAllocators (target st)" by simp
    show ?thesis
    proof (cases "must_truncate env maxTime nd st")
      case trunc: True
      from body have "st' = truncate_state env maxTime tn nd st"
        by (simp add: CopySubtree_body_truncate [OF nd tn True a trunc])
      then show ?thesis by (simp add: copy_rel_truncate [OF trunc])
    next
      case False
      from body have "CopySubtree_recurse rec (currentAllocatorId st)
          (length (alloc_nodes (target st) (currentAllocatorId st))) 0 (child_refs nd)
          (descend_state tn nd st) = Inr st'"
        by (simp add: CopySubtree_body_descend [OF nd tn True a False])
      then have "copy_rel (descend_state tn nd st) st'"
        using rec by (rule CopySubtree_recurse_rel [rotated])
      with copy_rel_descend [OF tn a False] show ?thesis by (rule copy_rel_trans)
    qed
  qed
qed

lemma CopySubtree_rel:
  "CopySubtree fuel env maxTime src tn node st = Inr st' \<Longrightarrow> copy_rel st st'"
proof (induction fuel arbitrary: tn node st st')
  case 0
  then show ?case by simp
next
  case (Suc fuel)
  from Suc.prems have "CopySubtree_body (CopySubtree fuel env maxTime src) env maxTime src
      tn node st = Inr st'"
    by simp
  with Suc.IH show ?case by (rule CopySubtree_body_rel)
qed


section \<open>Truncation\<close>

lemma truncate_state_facts:
  assumes "deref (target st) tn = Some old"
  shows "deref (target (truncate_state env maxTime tn nd st)) tn
           = Some ((CopyDataFrom nd old)\<lparr>pos_count := 0\<rparr>)"
    and "\<And>r. r \<noteq> tn \<Longrightarrow>
           deref (target (truncate_state env maxTime tn nd st)) r = deref (target st) r"
    and "NuNodes (target (truncate_state env maxTime tn nd st)) = NuNodes (target st)"
    and "\<And>a. length (alloc_nodes (target (truncate_state env maxTime tn nd st)) a)
           = length (alloc_nodes (target st) a)"
    and "currentAllocatorId (truncate_state env maxTime tn nd st) = currentAllocatorId st"
    and "\<not> warnTruncate (truncate_state env maxTime tn nd st)"
    and "SgDebug (truncate_state env maxTime tn nd st)
           = SgDebug st @
             (if warnTruncate st
              then reason_msgs
                     (\<not> HasCapacity (m_allocators (target st) ! currentAllocatorId st)
                          (num_children nd))
                     (IsTimeOut env maxTime (polls st)) (SgUserAbort env (polls st))
              else [])"
  using assms
  by (simp_all add: truncate_state_def deref_modify SetPosCount_def NuNodes_modify
      length_alloc_nodes_modify)

lemma ExtractSubtree_Inr_D:
  assumes "ExtractSubtree fuel env src tgt node warn maxTime = Inr (t', out)"
  obtains st' where
    "CopySubtree fuel env maxTime src RootRef node
       \<lparr>target = Clear tgt, currentAllocatorId = 0, warnTruncate = warn, polls = 0,
        SgDebug = []\<rparr> = Inr st'"
    "t' = target st'" "out = SgDebug st'" "Contains src node" "m_maxNodes tgt = m_maxNodes src"
  using assms
  by (auto simp: ExtractSubtree_def Let_def split: if_splits sum.splits)


lemmas copy_eval =
  ExtractSubtree_def Clear_def Clear_alloc_def CopySubtree_body_def CopySubtree_checks_def
  debug_if_warn_def ex_env_abort_def ex_env_quiet_def ex_start_def ex_truncated_def
  must_truncate_def reason_msgs_def valid_tree_def valid_node_def eval_nat_numeral

section \<open>What a copy leaves untouched\<close>

lemma Contains_grows: "grows t t' \<Longrightarrow> Contains t r \<Longrightarrow> Contains t' r"
proof (cases r)
  case (Slot a i)
  assume "grows t t'" "Contains t r"
  with Slot have "a < NuAllocators t'" "i < length (alloc_nodes t a)"
    "length (alloc_nodes t a) \<le> length (alloc_nodes t' a)"
    by (simp_all add: Contains_Slot grows_def)
  with Slot show ?thesis by (simp add: Contains_Slot)
qed (simp_all add: Contains_RootRef not_Contains_NullRef)

lemma CopySubtree_recurse_frame:
  assumes rec: "\<And>tn node st st' r. rec tn node st = Inr st' \<Longrightarrow> Contains (target st) r
                  \<Longrightarrow> r \<noteq> tn \<Longrightarrow> deref (target st') r = deref (target st) r"
    and rel: "\<And>tn node st st'. rec tn node st = Inr st' \<Longrightarrow> copy_rel st st'"
  shows "CopySubtree_recurse rec a first i cs st = Inr st' \<Longrightarrow> Contains (target st) r
          \<Longrightarrow> \<forall>j < length cs. r \<noteq> Slot a (first + i + j)
          \<Longrightarrow> deref (target st') r = deref (target st) r"
proof (induction cs arbitrary: i st)
  case Nil
  then show ?case by simp
next
  case (Cons c cs)
  let ?st1 = "st\<lparr>currentAllocatorId := next_allocator st\<rparr>"
  from Cons.prems(1) obtain st2 where
    st2: "rec (Slot a (first + i)) c ?st1 = Inr st2"
    and rest: "CopySubtree_recurse rec a first (i + 1) cs st2 = Inr st'"
    unfolding CopySubtree_recurse_Cons by (auto split: sum.splits)
  from Cons.prems(3) have ne0: "r \<noteq> Slot a (first + i)" by force
  from Cons.prems(3) have ne: "\<forall>j < length cs. r \<noteq> Slot a (first + (i + 1) + j)"
    by force
  from Cons.prems(2) have c1: "Contains (target ?st1) r" by simp
  from rec [OF st2 c1 ne0] have d2: "deref (target st2) r = deref (target st) r" by simp
  from rel [OF st2] have "grows (target ?st1) (target st2)" by (simp add: copy_rel_def)
  then have c2: "Contains (target st2) r" using c1 by (rule Contains_grows)
  from Cons.IH [OF rest c2 ne] d2 show ?case by simp
qed

lemma CopySubtree_body_frame:
  assumes rec: "\<And>tn node st st' r. rec tn node st = Inr st' \<Longrightarrow> Contains (target st) r
                  \<Longrightarrow> r \<noteq> tn \<Longrightarrow> deref (target st') r = deref (target st) r"
    and rel: "\<And>tn node st st'. rec tn node st = Inr st' \<Longrightarrow> copy_rel st st'"
    and body: "CopySubtree_body rec env maxTime src tn node st = Inr st'"
    and r: "Contains (target st) r" "r \<noteq> tn"
  shows "deref (target st') r = deref (target st) r"
proof -
  from body obtain nd where nd: "deref src node = Some nd" and tn: "Contains (target st) tn"
    and a: "\<not> HasChildren nd \<or> currentAllocatorId st < NuAllocators (target st)"
    by (rule CopySubtree_body_Inr_D)
  from tn obtain old where old: "deref (target st) tn = Some old"
    by (auto simp: Contains_deref)
  show ?thesis
  proof (cases "HasChildren nd")
    case False
    from body have "st' = st\<lparr>target := modify tn (CopyDataFrom nd) (target st)\<rparr>"
      by (simp add: CopySubtree_body_leaf [OF nd tn False])
    with r show ?thesis by (simp add: deref_modify)
  next
    case True
    with a have a: "currentAllocatorId st < NuAllocators (target st)" by simp
    show ?thesis
    proof (cases "must_truncate env maxTime nd st")
      case trunc: True
      from body have "st' = truncate_state env maxTime tn nd st"
        by (simp add: CopySubtree_body_truncate [OF nd tn True a trunc])
      with r truncate_state_facts(2) [OF old] show ?thesis by simp
    next
      case False
      let ?a = "currentAllocatorId st"
      let ?first = "length (alloc_nodes (target st) ?a)"
      let ?sd = "descend_state tn nd st"
      note f = descend_state_facts [OF old a, where nd = nd]
      from body have loop: "CopySubtree_recurse rec ?a ?first 0 (child_refs nd) ?sd = Inr st'"
        by (simp add: CopySubtree_body_descend [OF nd tn True a False])
      from r f(6) have cd: "Contains (target ?sd) r" by simp
      have ne: "\<forall>j < length (child_refs nd). r \<noteq> Slot ?a (?first + 0 + j)"
        using r(1) by (auto simp: Contains_Slot)
      from CopySubtree_recurse_frame [of rec, OF rec rel loop cd ne] f(4) [OF r]
      show ?thesis by simp
    qed
  qed
qed

lemma CopySubtree_frame:
  "CopySubtree fuel env maxTime src tn node st = Inr st' \<Longrightarrow> Contains (target st) r
    \<Longrightarrow> r \<noteq> tn \<Longrightarrow> deref (target st') r = deref (target st) r"
proof (induction fuel arbitrary: tn node st st' r)
  case 0
  then show ?case by simp
next
  case (Suc fuel)
  from Suc.prems(1) have body: "CopySubtree_body (CopySubtree fuel env maxTime src) env maxTime
      src tn node st = Inr st'"
    by simp
  show ?case
    by (rule CopySubtree_body_frame [OF Suc.IH CopySubtree_rel body Suc.prems(2,3)])
qed

section \<open>Reading a subtree\<close>

lemma subtree_refs_Suc_D:
  assumes "subtree_refs (Suc n) t r = Some rs"
  obtains nd rss where "deref t r = Some nd"
    "those (map (subtree_refs n t) (child_refs nd)) = Some rss" "rs = r # concat rss"
  using assms by (auto split: option.splits)

lemma subtree_Suc_D:
  assumes "subtree (Suc n) t r = Some u"
  obtains nd us where "deref t r = Some nd"
    "those (map (subtree n t) (child_refs nd)) = Some us" "u = UNode (node_data nd) us"
  using assms by (auto split: option.splits)

lemma subtree_refs_Contains:
  "subtree_refs n t r = Some rs \<Longrightarrow> x \<in> set rs \<Longrightarrow> Contains t x"
proof (induction n arbitrary: r rs)
  case 0
  then show ?case by simp
next
  case (Suc n)
  from Suc.prems(1) obtain nd rss where nd: "deref t r = Some nd"
    and rss: "those (map (subtree_refs n t) (child_refs nd)) = Some rss"
    and rs: "rs = r # concat rss"
    by (rule subtree_refs_Suc_D)
  show ?case
  proof (cases "x = r")
    case True
    with nd show ?thesis by (simp add: Contains_deref)
  next
    case False
    with Suc.prems(2) rs have "x \<in> set (concat rss)" by simp
    then obtain ys where ys: "ys \<in> set rss" "x \<in> set ys" by auto
    from ys(1) obtain j where "j < length rss" "ys = rss ! j"
      unfolding in_set_conv_nth by blast
    with ys(2) have j: "j < length rss" "x \<in> set (rss ! j)" by simp_all
    from rss j(1) have "subtree_refs n t (child_refs nd ! j) = Some (rss ! j)"
      by (simp add: those_map_Some_iff)
    from Suc.IH [OF this j(2)] show ?thesis .
  qed
qed

lemma subtree_local:
  "subtree_refs n t r = Some rs \<Longrightarrow> \<forall>x \<in> set rs. deref t' x = deref t x
    \<Longrightarrow> subtree_refs n t' r = Some rs \<and> subtree n t' r = subtree n t r"
proof (induction n arbitrary: r rs)
  case 0
  then show ?case by simp
next
  case (Suc n)
  from Suc.prems(1) obtain nd rss where nd: "deref t r = Some nd"
    and rss: "those (map (subtree_refs n t) (child_refs nd)) = Some rss"
    and rs: "rs = r # concat rss"
    by (rule subtree_refs_Suc_D)
  from Suc.prems(2) rs nd have nd': "deref t' r = Some nd" by simp
  have child: "subtree_refs n t' c = subtree_refs n t c \<and> subtree n t' c = subtree n t c"
    if c: "c \<in> set (child_refs nd)" for c
  proof -
    from c obtain j where j: "j < length (child_refs nd)" "c = child_refs nd ! j"
      by (auto simp: in_set_conv_nth)
    with rss have sj: "subtree_refs n t c = Some (rss ! j)" and jl: "j < length rss"
      by (simp_all add: those_map_Some_iff)
    from nth_mem [OF jl] have "set (rss ! j) \<subseteq> set (concat rss)" by auto
    with Suc.prems(2) rs have "\<forall>x \<in> set (rss ! j). deref t' x = deref t x" by auto
    from Suc.IH [OF sj this] sj show ?thesis by simp
  qed
  have m1: "map (subtree_refs n t') (child_refs nd) = map (subtree_refs n t) (child_refs nd)"
    by (rule map_cong [OF refl]) (simp add: child)
  have m2: "map (subtree n t') (child_refs nd) = map (subtree n t) (child_refs nd)"
    by (rule map_cong [OF refl]) (simp add: child)
  from nd nd' rss rs show ?case by (simp add: m1 m2)
qed

lemma subtree_refs_of_subtree:
  "subtree n t r = Some u \<Longrightarrow> \<exists>rs. subtree_refs n t r = Some rs \<and> length rs = usize u"
proof (induction n arbitrary: r u)
  case 0
  then show ?case by simp
next
  case (Suc n)
  from Suc.prems obtain nd us where nd: "deref t r = Some nd"
    and us: "those (map (subtree n t) (child_refs nd)) = Some us"
    and u: "u = UNode (node_data nd) us"
    by (rule subtree_Suc_D)
  have "\<forall>j < length (child_refs nd). \<exists>rs. subtree_refs n t (child_refs nd ! j) = Some rs
          \<and> length rs = usize (us ! j)"
    using us Suc.IH by (simp add: those_map_Some_iff)
  then obtain f where f: "\<forall>j < length (child_refs nd).
      subtree_refs n t (child_refs nd ! j) = Some (f j) \<and> length (f j) = usize (us ! j)"
    by metis
  let ?rss = "map f [0..<length (child_refs nd)]"
  from us have lus: "length us = length (child_refs nd)" by (simp add: those_map_Some_iff)
  have rss: "those (map (subtree_refs n t) (child_refs nd)) = Some ?rss"
    using f by (simp add: those_map_Some_iff)
  have "map length ?rss = map usize us"
    using f lus by (auto intro!: nth_equalityI)
  then have "length (concat ?rss) = sum_list (map usize us)"
    by (simp add: length_concat)
  with nd rss u show ?case by simp
qed

section \<open>A copy without truncation reproduces the subtree\<close>

lemma warned_back:
  "warned st st' \<Longrightarrow> warnTruncate st' \<Longrightarrow> warnTruncate st \<and> SgDebug st' = SgDebug st"
  by (auto simp: warned_def split: if_splits)

lemma copied_later:
  assumes c: "copied n src node t t1 tn u"
    and g: "grows t0 t"
    and same: "\<And>x. Contains t1 x \<Longrightarrow> x = tn \<or> \<not> Contains t x \<Longrightarrow> deref t2 x = deref t1 x"
  shows "copied n src node t0 t2 tn u"
proof -
  from c obtain rs where src: "subtree n src node = Some u" and u: "subtree n t1 tn = Some u"
    and rs: "subtree_refs n t1 tn = Some rs" and new: "\<forall>r \<in> set rs. r = tn \<or> \<not> Contains t r"
    by (auto simp: copied_def)
  have "\<forall>x \<in> set rs. deref t2 x = deref t1 x"
  proof
    fix x assume x: "x \<in> set rs"
    from subtree_refs_Contains [OF rs x] new x show "deref t2 x = deref t1 x"
      by (intro same) auto
  qed
  from subtree_local [OF rs this] have "subtree_refs n t2 tn = Some rs"
    "subtree n t2 tn = subtree n t1 tn"
    by simp_all
  moreover have "\<forall>r \<in> set rs. r = tn \<or> \<not> Contains t0 r"
    using new Contains_grows [OF g] by blast
  ultimately show ?thesis using src u by (auto simp: copied_def)
qed

lemma CopySubtree_recurse_copied:
  assumes IH: "\<And>tn node st st'.
      CopySubtree n env maxTime src tn node st = Inr st' \<Longrightarrow> warnTruncate st'
      \<Longrightarrow> \<exists>old. deref (target st) tn = Some old \<and> num_children old = 0
      \<Longrightarrow> \<exists>u. copied n src node (target st) (target st') tn u
               \<and> NuNodes (target st') + 1 = NuNodes (target st) + usize u"
  shows "CopySubtree_recurse (CopySubtree n env maxTime src) a first i cs st = Inr st'
    \<Longrightarrow> warnTruncate st'
    \<Longrightarrow> \<forall>j < length cs. deref (target st) (Slot a (first + i + j))
                              = Some (new_SgUctNode SG_NULLMOVE)
    \<Longrightarrow> \<exists>us. length us = length cs
          \<and> (\<forall>j < length cs.
                 copied n src (cs ! j) (target st) (target st') (Slot a (first + i + j)) (us ! j))
          \<and> NuNodes (target st') + length cs = NuNodes (target st) + sum_list (map usize us)"
proof (induction cs arbitrary: i st)
  case Nil
  then show ?case by simp
next
  case (Cons c cs)
  let ?rec = "CopySubtree n env maxTime src"
  let ?new = "new_SgUctNode SG_NULLMOVE"
  let ?st1 = "st\<lparr>currentAllocatorId := next_allocator st\<rparr>"
  let ?slot0 = "Slot a (first + i)"
  from Cons.prems(1) obtain st2 where
    st2: "?rec ?slot0 c ?st1 = Inr st2"
    and rest: "CopySubtree_recurse ?rec a first (i + 1) cs st2 = Inr st'"
    unfolding CopySubtree_recurse_Cons by (auto split: sum.splits)
  have "copy_rel st2 st'"
    using rest CopySubtree_rel by (rule CopySubtree_recurse_rel [rotated])
  then have "warned st2 st'" by (simp add: copy_rel_def)
  from warned_back [OF this Cons.prems(2)] have w2: "warnTruncate st2" by simp
  from CopySubtree_rel [OF st2] have g12: "grows (target st) (target st2)"
    by (simp add: copy_rel_def)
  from Cons.prems(3) have "deref (target ?st1) ?slot0 = Some ?new" by force
  moreover have "num_children ?new = 0" by (simp add: new_SgUctNode_def)
  ultimately have fresh0: "\<exists>old. deref (target ?st1) ?slot0 = Some old \<and> num_children old = 0"
    by blast
  from IH [OF st2 w2 fresh0] obtain u0 where
    u0: "copied n src c (target st) (target st2) ?slot0 u0"
    and n0: "NuNodes (target st2) + 1 = NuNodes (target st) + usize u0"
    by auto
  have pend: "deref (target st) (Slot a (first + (i + 1) + j)) = Some ?new"
    if "j < length cs" for j
    using Cons.prems(3) that by force
  have pending: "\<forall>j < length cs. deref (target st2) (Slot a (first + (i + 1) + j)) = Some ?new"
  proof (intro allI impI)
    fix j assume j: "j < length cs"
    from pend [OF j] have "Contains (target ?st1) (Slot a (first + (i + 1) + j))"
      by (simp add: Contains_deref)
    from CopySubtree_frame [OF st2 this] pend [OF j]
    show "deref (target st2) (Slot a (first + (i + 1) + j)) = Some ?new" by simp
  qed
  from Cons.IH [OF rest Cons.prems(2) pending] obtain us where
    lus: "length us = length cs"
    and cus: "\<forall>j < length cs.
        copied n src (cs ! j) (target st2) (target st') (Slot a (first + (i + 1) + j)) (us ! j)"
    and nus: "NuNodes (target st') + length cs = NuNodes (target st2) + sum_list (map usize us)"
    by auto
  have same: "deref (target st') x = deref (target st2) x"
    if x: "Contains (target st2) x" "x = ?slot0 \<or> \<not> Contains (target st) x" for x
  proof -
    have ne: "\<forall>j < length cs. x \<noteq> Slot a (first + (i + 1) + j)"
    proof (intro allI impI)
      fix j assume j: "j < length cs"
      from pend [OF j] have "Contains (target st) (Slot a (first + (i + 1) + j))"
        by (simp add: Contains_deref)
      with x(2) show "x \<noteq> Slot a (first + (i + 1) + j)" by auto
    qed
    show ?thesis
      by (rule CopySubtree_recurse_frame
            [where rec = ?rec, OF CopySubtree_frame CopySubtree_rel rest x(1) ne])
  qed
  have c0: "copied n src c (target st) (target st') ?slot0 u0"
    using u0 grows_refl same by (rule copied_later)
  have cj: "copied n src (cs ! j) (target st) (target st') (Slot a (first + (i + 1) + j)) (us ! j)"
    if "j < length cs" for j
    using cus [rule_format, OF that] g12 by (rule copied_later) simp
  have "\<forall>j < length (c # cs).
          copied n src ((c # cs) ! j) (target st) (target st') (Slot a (first + i + j))
            ((u0 # us) ! j)"
  proof (intro allI impI)
    fix j assume j: "j < length (c # cs)"
    show "copied n src ((c # cs) ! j) (target st) (target st') (Slot a (first + i + j))
            ((u0 # us) ! j)"
    proof (cases j)
      case 0
      with c0 show ?thesis by simp
    next
      case (Suc j')
      with j cj [of j'] show ?thesis by simp
    qed
  qed
  moreover have "length (u0 # us) = length (c # cs)" using lus by simp
  moreover have "NuNodes (target st') + length (c # cs)
      = NuNodes (target st) + sum_list (map usize (u0 # us))"
    using n0 nus by simp
  ultimately show ?case by blast
qed

lemma node_data_CopyDataFrom: "node_data (CopyDataFrom nd old) = node_data nd"
  by (simp add: node_data_def CopyDataFrom_def)

lemma node_data_links: "node_data (x\<lparr>first_child := r, num_children := k\<rparr>) = node_data x"
  by (simp add: node_data_def)

lemma child_refs_empty: "num_children nd = 0 \<Longrightarrow> child_refs nd = []"
  by (simp add: child_refs_def)

lemma CopySubtree_copied:
  "CopySubtree fuel env maxTime src tn node st = Inr st' \<Longrightarrow> warnTruncate st'
    \<Longrightarrow> \<exists>old. deref (target st) tn = Some old \<and> num_children old = 0
    \<Longrightarrow> \<exists>u. copied fuel src node (target st) (target st') tn u
             \<and> NuNodes (target st') + 1 = NuNodes (target st) + usize u"
proof (induction fuel arbitrary: tn node st st')
  case 0
  then show ?case by simp
next
  case (Suc n)
  let ?rec = "CopySubtree n env maxTime src"
  from Suc.prems(1) have body: "CopySubtree_body ?rec env maxTime src tn node st = Inr st'"
    by simp
  from body obtain nd where nd: "deref src node = Some nd" and tn: "Contains (target st) tn"
    and a: "\<not> HasChildren nd \<or> currentAllocatorId st < NuAllocators (target st)"
    by (rule CopySubtree_body_Inr_D)
  from Suc.prems(3) obtain old where old: "deref (target st) tn = Some old"
    and old0: "num_children old = 0"
    by blast
  show ?case
  proof (cases "HasChildren nd")
    case False
    let ?t' = "modify tn (CopyDataFrom nd) (target st)"
    from body have st': "st' = st\<lparr>target := ?t'\<rparr>"
      by (simp add: CopySubtree_body_leaf [OF nd tn False])
    from False have k: "child_refs nd = []" by (simp add: HasChildren_def child_refs_empty)
    have d: "deref ?t' tn = Some (CopyDataFrom nd old)" using old by (simp add: deref_modify)
    have k': "child_refs (CopyDataFrom nd old) = []"
      using old0 by (simp add: child_refs_empty CopyDataFrom_def)
    have "subtree (Suc n) src node = Some (UNode (node_data nd) [])"
      using nd k by simp
    moreover have "subtree (Suc n) ?t' tn = Some (UNode (node_data nd) [])"
      using d k' by (simp add: node_data_CopyDataFrom)
    moreover have "subtree_refs (Suc n) ?t' tn = Some [tn]"
      using d k' by simp
    ultimately have "copied (Suc n) src node (target st) ?t' tn (UNode (node_data nd) [])"
      by (simp add: copied_def)
    then show ?thesis using st' by (auto simp: NuNodes_modify)
  next
    case True
    with a have a: "currentAllocatorId st < NuAllocators (target st)" by simp
    show ?thesis
    proof (cases "must_truncate env maxTime nd st")
      case trunc: True
      from body have "st' = truncate_state env maxTime tn nd st"
        by (simp add: CopySubtree_body_truncate [OF nd tn True a trunc])
      with Suc.prems(2) show ?thesis by (simp add: truncate_state_def)
    next
      case False
      let ?a = "currentAllocatorId st"
      let ?first = "length (alloc_nodes (target st) ?a)"
      let ?k = "num_children nd"
      let ?sd = "descend_state tn nd st"
      let ?t' = "target st'"
      let ?x = "(CopyDataFrom nd old)\<lparr>first_child := Slot ?a ?first, num_children := ?k\<rparr>"
      note f = descend_state_facts [OF old a, where nd = nd]
      have lk: "length (child_refs nd) = ?k" by (simp add: child_refs_def)
      from body have loop: "CopySubtree_recurse ?rec ?a ?first 0 (child_refs nd) ?sd = Inr st'"
        by (simp add: CopySubtree_body_descend [OF nd tn True a False])
      have fresh: "\<forall>j < length (child_refs nd).
          deref (target ?sd) (Slot ?a (?first + 0 + j)) = Some (new_SgUctNode SG_NULLMOVE)"
        using f(5) by (simp add: lk)
      from CopySubtree_recurse_copied [OF Suc.IH loop Suc.prems(2) fresh]
      obtain us where lus: "length us = ?k"
        and cus: "\<forall>j < ?k. copied n src (child_refs nd ! j) (target ?sd) ?t'
                      (Slot ?a (?first + j)) (us ! j)"
        and nus: "NuNodes ?t' + ?k = NuNodes (target ?sd) + sum_list (map usize us)"
        by (auto simp: lk)
      \<comment> \<open>the target node keeps what the call wrote into it\<close>
      from tn f(6) have ctn: "Contains (target ?sd) tn" by simp
      have ne: "\<forall>j < length (child_refs nd). tn \<noteq> Slot ?a (?first + 0 + j)"
        using tn by (auto simp: Contains_Slot)
      have dtn: "deref ?t' tn = Some ?x"
        using CopySubtree_recurse_frame
          [where rec = ?rec, OF CopySubtree_frame CopySubtree_rel loop ctn ne] f(3)
        by simp
      have refs_x: "child_refs ?x = map (\<lambda>j. Slot ?a (?first + j)) [0..<?k]"
        by (simp add: child_refs_def)
      \<comment> \<open>the source subtree\<close>
      have src_us: "those (map (subtree n src) (child_refs nd)) = Some us"
        unfolding those_map_Some_iff using lus lk cus by (simp add: copied_def)
      then have src_u: "subtree (Suc n) src node = Some (UNode (node_data nd) us)"
        using nd by simp
      \<comment> \<open>the target subtree\<close>
      have tgt_us: "those (map (subtree n ?t') (child_refs ?x)) = Some us"
        unfolding those_map_Some_iff refs_x using lus cus by (simp add: copied_def)
      then have tgt_u: "subtree (Suc n) ?t' tn = Some (UNode (node_data nd) us)"
        using dtn by (simp add: node_data_links node_data_CopyDataFrom)
      \<comment> \<open>the nodes it lies in\<close>
      have "\<forall>j < ?k. \<exists>rs. subtree_refs n ?t' (Slot ?a (?first + j)) = Some rs
              \<and> (\<forall>r \<in> set rs. r = Slot ?a (?first + j) \<or> \<not> Contains (target ?sd) r)"
        using cus by (simp add: copied_def)
      then obtain g where g: "\<forall>j < ?k. subtree_refs n ?t' (Slot ?a (?first + j)) = Some (g j)
              \<and> (\<forall>r \<in> set (g j). r = Slot ?a (?first + j) \<or> \<not> Contains (target ?sd) r)"
        by metis
      let ?rss = "map g [0..<?k]"
      have tgt_rss: "those (map (subtree_refs n ?t') (child_refs ?x)) = Some ?rss"
        unfolding those_map_Some_iff refs_x using g by simp
      then have tgt_refs: "subtree_refs (Suc n) ?t' tn = Some (tn # concat ?rss)"
        using dtn by simp
      have new: "\<forall>r \<in> set (tn # concat ?rss). r = tn \<or> \<not> Contains (target st) r"
      proof
        fix r assume "r \<in> set (tn # concat ?rss)"
        then consider "r = tn" | j where "j < ?k" "r \<in> set (g j)" by auto
        then show "r = tn \<or> \<not> Contains (target st) r"
        proof cases
          case 1
          then show ?thesis by simp
        next
          case 2
          with g have "r = Slot ?a (?first + j) \<or> \<not> Contains (target ?sd) r" by blast
          then show ?thesis using f(6) by (auto simp: Contains_Slot)
        qed
      qed
      have "copied (Suc n) src node (target st) ?t' tn (UNode (node_data nd) us)"
        unfolding copied_def using src_u tgt_u tgt_refs new by blast
      moreover have "NuNodes ?t' + 1 = NuNodes (target st) + usize (UNode (node_data nd) us)"
        using nus f(7) by simp
      ultimately show ?thesis by blast
    qed
  qed
qed

section \<open>The nodes read are the nodes reachable\<close>

lemma subtree_refs_self: "subtree_refs n t r = Some rs \<Longrightarrow> r \<in> set rs"
  by (cases n) (auto split: option.splits)

lemma subtree_refs_child:
  assumes "those (map (subtree_refs n t) cs) = Some rss" and "c \<in> set cs"
  shows "\<exists>j < length rss. subtree_refs n t c = Some (rss ! j) \<and> c \<in> set (rss ! j)"
proof -
  from assms(2) obtain j where j: "j < length cs" "c = cs ! j"
    by (auto simp: in_set_conv_nth)
  with assms(1) have "j < length rss" "subtree_refs n t c = Some (rss ! j)"
    by (simp_all add: those_map_Some_iff)
  then show ?thesis using subtree_refs_self by blast
qed

lemma subtree_refs_closed:
  "subtree_refs n t r = Some rs \<Longrightarrow> x \<in> set rs \<Longrightarrow> (x, y) \<in> child_rel t \<Longrightarrow> y \<in> set rs"
proof (induction n arbitrary: r rs)
  case 0
  then show ?case by simp
next
  case (Suc n)
  from Suc.prems(1) obtain nd rss where nd: "deref t r = Some nd"
    and rss: "those (map (subtree_refs n t) (child_refs nd)) = Some rss"
    and rs: "rs = r # concat rss"
    by (rule subtree_refs_Suc_D)
  show ?case
  proof (cases "x = r")
    case True
    with Suc.prems(3) nd have "y \<in> set (child_refs nd)" by (simp add: child_rel_def)
    from subtree_refs_child [OF rss this] obtain j where "j < length rss" "y \<in> set (rss ! j)"
      by blast
    then have "y \<in> set (concat rss)" using nth_mem by fastforce
    with rs show ?thesis by simp
  next
    case False
    with Suc.prems(2) rs have "x \<in> set (concat rss)" by simp
    then obtain ys where ys: "ys \<in> set rss" "x \<in> set ys" by auto
    from ys(1) obtain j where j: "j < length rss" "ys = rss ! j"
      unfolding in_set_conv_nth by blast
    from rss j(1) have "subtree_refs n t (child_refs nd ! j) = Some (rss ! j)"
      by (simp add: those_map_Some_iff)
    from Suc.IH [OF this _ Suc.prems(3)] ys(2) j(2) have "y \<in> set (rss ! j)" by simp
    then have "y \<in> set (concat rss)" using j(1) nth_mem by fastforce
    with rs show ?thesis by simp
  qed
qed

lemma subtree_refs_sound:
  "subtree_refs n t r = Some rs \<Longrightarrow> x \<in> set rs \<Longrightarrow> (r, x) \<in> (child_rel t)\<^sup>*"
proof (induction n arbitrary: r rs)
  case 0
  then show ?case by simp
next
  case (Suc n)
  from Suc.prems(1) obtain nd rss where nd: "deref t r = Some nd"
    and rss: "those (map (subtree_refs n t) (child_refs nd)) = Some rss"
    and rs: "rs = r # concat rss"
    by (rule subtree_refs_Suc_D)
  show ?case
  proof (cases "x = r")
    case True
    then show ?thesis by simp
  next
    case False
    with Suc.prems(2) rs have "x \<in> set (concat rss)" by simp
    then obtain ys where ys: "ys \<in> set rss" "x \<in> set ys" by auto
    from ys(1) obtain j where j: "j < length rss" "ys = rss ! j"
      unfolding in_set_conv_nth by blast
    from rss j(1) have c: "subtree_refs n t (child_refs nd ! j) = Some (rss ! j)"
      and jl: "j < length (child_refs nd)"
      by (simp_all add: those_map_Some_iff)
    from jl nd have "(r, child_refs nd ! j) \<in> child_rel t"
      by (auto simp: child_rel_def)
    moreover from Suc.IH [OF c] ys(2) j(2) have "(child_refs nd ! j, x) \<in> (child_rel t)\<^sup>*"
      by simp
    ultimately show ?thesis by (rule converse_rtrancl_into_rtrancl)
  qed
qed

lemma subtree_refs_reachable:
  assumes "subtree_refs n t r = Some rs"
  shows "set rs = reachable t r"
proof
  show "set rs \<subseteq> reachable t r"
    using subtree_refs_sound [OF assms] by (auto simp: reachable_def)
next
  have "y \<in> set rs" if "(r, y) \<in> (child_rel t)\<^sup>*" for y
    using that
  proof (induction rule: rtrancl_induct)
    case base
    show ?case using assms by (rule subtree_refs_self)
  next
    case (step y z)
    from assms step.IH step.hyps(2) show ?case by (rule subtree_refs_closed)
  qed
  then show "reachable t r \<subseteq> set rs" by (auto simp: reachable_def)
qed

lemma is_tree_below_card:
  assumes "is_tree_below n t r" and "subtree n t r = Some u"
  shows "card (reachable t r) = usize u"
proof -
  from subtree_refs_of_subtree [OF assms(2)] obtain rs where
    rs: "subtree_refs n t r = Some rs" "length rs = usize u"
    by blast
  with assms(1) have "distinct rs" by (simp add: is_tree_below_def)
  then have "card (set rs) = length rs" by (rule distinct_card)
  with rs subtree_refs_reachable [OF rs(1)] show ?thesis by simp
qed

section \<open>Without truncation the warning flag does not matter\<close>

lemma with_warn_fields:
  "target (with_warn w d st) = target st"
  "currentAllocatorId (with_warn w d st) = currentAllocatorId st"
  "polls (with_warn w d st) = polls st"
  "warnTruncate (with_warn w d st) = w"
  "SgDebug (with_warn w d st) = d"
  by (simp_all add: with_warn_def)

lemma with_warn_commute:
  "(with_warn w d st)\<lparr>currentAllocatorId := c\<rparr> = with_warn w d (st\<lparr>currentAllocatorId := c\<rparr>)"
  "(with_warn w d st)\<lparr>target := t\<rparr> = with_warn w d (st\<lparr>target := t\<rparr>)"
  "descend_state tn nd (with_warn w d st) = with_warn w d (descend_state tn nd st)"
  "next_allocator (with_warn w d st) = next_allocator st"
  "must_truncate env maxTime nd (with_warn w d st) = must_truncate env maxTime nd st"
  by (cases st; simp add: with_warn_def descend_state_def next_allocator_def must_truncate_def)+

lemma CopySubtree_recurse_with_warn:
  assumes IH: "\<And>tn node st st'. rec tn node st = Inr st' \<Longrightarrow> warnTruncate st'
                 \<Longrightarrow> rec tn node (with_warn w d st) = Inr (with_warn w d st')"
    and rel: "\<And>tn node st st'. rec tn node st = Inr st' \<Longrightarrow> copy_rel st st'"
  shows "CopySubtree_recurse rec a first i cs st = Inr st' \<Longrightarrow> warnTruncate st'
    \<Longrightarrow> CopySubtree_recurse rec a first i cs (with_warn w d st) = Inr (with_warn w d st')"
proof (induction cs arbitrary: i st)
  case Nil
  then show ?case by simp
next
  case (Cons c cs)
  let ?st1 = "st\<lparr>currentAllocatorId := next_allocator st\<rparr>"
  from Cons.prems(1) obtain st2 where
    st2: "rec (Slot a (first + i)) c ?st1 = Inr st2"
    and rest: "CopySubtree_recurse rec a first (i + 1) cs st2 = Inr st'"
    unfolding CopySubtree_recurse_Cons by (auto split: sum.splits)
  have "copy_rel st2 st'" using rest rel by (rule CopySubtree_recurse_rel [rotated])
  then have "warned st2 st'" by (simp add: copy_rel_def)
  from warned_back [OF this Cons.prems(2)] have w2: "warnTruncate st2" by simp
  from IH [OF st2 w2] Cons.IH [OF rest Cons.prems(2)] show ?case
    by (simp add: CopySubtree_recurse_Cons with_warn_commute del: CopySubtree_recurse.simps)
qed

lemma CopySubtree_with_warn:
  "CopySubtree fuel env maxTime src tn node st = Inr st' \<Longrightarrow> warnTruncate st'
    \<Longrightarrow> CopySubtree fuel env maxTime src tn node (with_warn w d st) = Inr (with_warn w d st')"
proof (induction fuel arbitrary: tn node st st')
  case 0
  then show ?case by simp
next
  case (Suc n)
  let ?rec = "CopySubtree n env maxTime src"
  let ?sw = "with_warn w d st"
  from Suc.prems(1) have body: "CopySubtree_body ?rec env maxTime src tn node st = Inr st'"
    by simp
  from body obtain nd where nd: "deref src node = Some nd" and tn: "Contains (target st) tn"
    and a: "\<not> HasChildren nd \<or> currentAllocatorId st < NuAllocators (target st)"
    by (rule CopySubtree_body_Inr_D)
  from tn have tnw: "Contains (target ?sw) tn" by (simp add: with_warn_fields)
  show ?case
  proof (cases "HasChildren nd")
    case False
    from body have "st' = st\<lparr>target := modify tn (CopyDataFrom nd) (target st)\<rparr>"
      by (simp add: CopySubtree_body_leaf [OF nd tn False])
    then show ?thesis
      by (simp add: CopySubtree_body_leaf [OF nd tnw False] with_warn_fields with_warn_commute)
  next
    case True
    with a have a: "currentAllocatorId st < NuAllocators (target st)" by simp
    then have aw: "currentAllocatorId ?sw < NuAllocators (target ?sw)"
      by (simp add: with_warn_fields)
    show ?thesis
    proof (cases "must_truncate env maxTime nd st")
      case trunc: True
      from body have "st' = truncate_state env maxTime tn nd st"
        by (simp add: CopySubtree_body_truncate [OF nd tn True a trunc])
      with Suc.prems(2) show ?thesis by (simp add: truncate_state_def)
    next
      case False
      then have fw: "\<not> must_truncate env maxTime nd ?sw" by (simp add: with_warn_commute)
      from body have loop: "CopySubtree_recurse ?rec (currentAllocatorId st)
          (length (alloc_nodes (target st) (currentAllocatorId st))) 0 (child_refs nd)
          (descend_state tn nd st) = Inr st'"
        by (simp add: CopySubtree_body_descend [OF nd tn True a False])
      have "CopySubtree_recurse ?rec (currentAllocatorId st)
          (length (alloc_nodes (target st) (currentAllocatorId st))) 0 (child_refs nd)
          (with_warn w d (descend_state tn nd st)) = Inr (with_warn w d st')"
        by (rule CopySubtree_recurse_with_warn
              [where rec = ?rec, OF Suc.IH CopySubtree_rel loop Suc.prems(2)])
      then show ?thesis
        by (simp add: CopySubtree_body_descend [OF nd tnw True aw fw] with_warn_fields
            with_warn_commute)
    qed
  qed
qed

section \<open>ExtractSubtree without truncation\<close>

lemma reason_msgs_nonempty: "c \<or> t \<or> a \<Longrightarrow> reason_msgs c t a \<noteq> []"
  by (auto simp: reason_msgs_def)

text \<open>
  Claim C4.  Let the nodes below \<open>node\<close> in the source form a tree (no node is reached
  twice), and let the extraction complete without truncation: run with warnings on, it
  returns and has written nothing.  Then for either value of \<open>warnTruncate\<close> the extraction
  returns the same target and writes nothing; the subtree read off the target at its root
  is the subtree read off the source at \<open>node\<close>, with the same data at every node and the
  same children in the same order; and the node count of the target is the number of
  nodes of that subtree, which is the number of nodes reachable from \<open>node\<close> in the source.
\<close>

theorem C4_ExtractSubtree_reproduces_reachable_subtree:
  assumes quiet: "ExtractSubtree fuel env src tgt node True maxTime = Inr (t', [])"
    and tree: "is_tree_below fuel src node"
  shows "ExtractSubtree fuel env src tgt node warn maxTime = Inr (t', [])
       \<and> (\<exists>u. subtree fuel src node = Some u \<and> subtree fuel t' RootRef = Some u
              \<and> NuNodes t' = usize u)
       \<and> NuNodes t' = card (reachable src node)"
proof -
  let ?st0 = "\<lparr>target = Clear tgt, currentAllocatorId = 0, warnTruncate = True, polls = 0,
        SgDebug = []\<rparr>"
  from quiet obtain st' where run: "CopySubtree fuel env maxTime src RootRef node ?st0 = Inr st'"
    and t': "t' = target st'" and out: "[] = SgDebug st'"
    and pre: "Contains src node" "m_maxNodes tgt = m_maxNodes src"
    by (rule ExtractSubtree_Inr_D)
  from CopySubtree_rel [OF run] have "warned ?st0 st'" by (simp add: copy_rel_def)
  then have "warnTruncate st' \<or> (\<exists>c t a. (c \<or> t \<or> a) \<and> SgDebug st' = reason_msgs c t a)"
    by (auto simp: warned_def)
  then have w': "warnTruncate st'"
  proof
    assume "\<exists>c t a. (c \<or> t \<or> a) \<and> SgDebug st' = reason_msgs c t a"
    then obtain c t a where "c \<or> t \<or> a" "SgDebug st' = reason_msgs c t a" by blast
    with reason_msgs_nonempty [of c t a] out show ?thesis by simp
  qed
  have "deref (target ?st0) RootRef = Some (new_SgUctNode SG_NULLMOVE)"
    by (simp add: deref_RootRef m_root_Clear)
  moreover have "num_children (new_SgUctNode SG_NULLMOVE) = 0"
    by (simp add: new_SgUctNode_def)
  ultimately have fresh: "\<exists>old. deref (target ?st0) RootRef = Some old \<and> num_children old = 0"
    by blast
  from CopySubtree_copied [OF run w' fresh] obtain u where
    u: "copied fuel src node (Clear tgt) t' RootRef u"
    and n: "NuNodes t' + 1 = NuNodes (Clear tgt) + usize u"
    by (auto simp: t')
  from u have su: "subtree fuel src node = Some u" and tu: "subtree fuel t' RootRef = Some u"
    by (simp_all add: copied_def)
  from n have nu: "NuNodes t' = usize u" by (simp add: NuNodes_Clear)
  have st0w: "with_warn warn [] ?st0
      = \<lparr>target = Clear tgt, currentAllocatorId = 0, warnTruncate = warn, polls = 0,
         SgDebug = []\<rparr>"
    by (simp add: with_warn_def)
  from CopySubtree_with_warn [OF run w', of warn "[]"]
  have "ExtractSubtree fuel env src tgt node warn maxTime = Inr (t', [])"
    using pre by (simp add: ExtractSubtree_def st0w t' with_warn_fields)
  moreover from is_tree_below_card [OF tree su] nu have "NuNodes t' = card (reachable src node)"
    by simp
  ultimately show ?thesis using su tu nu by blast
qed

lemma ex_extract_quiet:
  "ExtractSubtree 3 ex_env_quiet ex_tree ex_empty RootRef w 10 = Inr (ex_tree, [])"
  by (simp add: ex_eval copy_eval next_allocator_def)

lemma ex_tree_refs:
  "subtree_refs 3 ex_tree RootRef = Some [RootRef, Slot 0 0, Slot 1 0, Slot 0 1]"
  by (simp add: ex_eval eval_nat_numeral)

lemma ex_tree_subtree:
  "subtree 3 ex_tree RootRef
       = Some (UNode (node_data (ex_node SG_NULLMOVE 10 (1/2) (Slot 0 0) 2))
                [UNode (node_data (ex_node 3 6 (1/2) (Slot 1 0) 1))
                   [UNode (node_data (ex_node 5 2 1 NullRef 0)) []],
                 UNode (node_data (ex_node 4 4 (1/4) NullRef 0)) []])"
  by (simp add: ex_eval eval_nat_numeral node_data_def)

lemma ex_tree_NuNodes: "NuNodes ex_tree = 4"
  by (simp add: ex_tree_def NuNodes_def NuNodes_alloc_def)

theorem C4_ExtractSubtree_reproduces_reachable_subtree_witness:
  "ExtractSubtree 3 ex_env_quiet ex_tree ex_empty RootRef True 10 = Inr (ex_tree, [])
   \<and> is_tree_below 3 ex_tree RootRef
   \<and> ExtractSubtree 3 ex_env_quiet ex_tree ex_empty RootRef False 10 = Inr (ex_tree, [])
   \<and> subtree 3 ex_tree RootRef
       = Some (UNode (node_data (ex_node SG_NULLMOVE 10 (1/2) (Slot 0 0) 2))
                [UNode (node_data (ex_node 3 6 (1/2) (Slot 1 0) 1))
                   [UNode (node_data (ex_node 5 2 1 NullRef 0)) []],
                 UNode (node_data (ex_node 4 4 (1/4) NullRef 0)) []])
   \<and> NuNodes ex_tree = 4
   \<and> card (reachable ex_tree RootRef) = 4"
  using C4_ExtractSubtree_reproduces_reachable_subtree
    [of 3 ex_env_quiet ex_tree ex_empty RootRef 10 ex_tree False]
    ex_extract_quiet [of True] ex_extract_quiet [of False] ex_tree_refs ex_tree_subtree
    ex_tree_NuNodes
  by (simp add: is_tree_below_def)

section \<open>An extraction returns\<close>








text \<open>
  When two reasons hold at the node where the copy truncates, two lines are written there.
\<close>

lemma ExtractSubtree_two_reasons_example:
  "ExtractSubtree 3 ex_env_both ex_tree ex_empty RootRef True 10
     = Inr (ex_truncated, [msg_max_time, msg_aborted])"
  by (simp add: ex_eval copy_eval ex_env_both_def)

end
